theory Spec2Isabelle
  imports Main
begin

section \<open>The XML node model of src/xmlNode.ts\<close>

text \<open>
  The nodes of the source are JavaScript objects that point at each other
  (\<open>parentNode\<close>, \<open>nextSibling\<close>, the entries of \<open>childNodes\<close>), and the mutation
  operations update these objects in place. The model therefore keeps an explicit store:
  an object is an address, the store maps every address to the fields of the object, and
  an operation takes the store and returns the store it leaves behind together with its
  outcome. An exception is the outcome \<open>Inl e\<close>; the store returned with it is the one
  the exception leaves behind, since a \<open>throw\<close> does not undo earlier assignments.

  \<open>undefined\<close> and \<open>null\<close> are both \<open>None\<close> for the link fields and for node
  arguments: the source tests them only by \<open>!x\<close>, or dereferences them, and both
  spellings behave alike there. The child array of a node is kept as the value of its
  \<open>childNodes\<close> field: no function of the source makes two nodes hold one array (a
  shallow clone clears the field, \<open>appendChild\<close>, \<open>insertChild\<close> and the deep clone
  allocate a new array).
\<close>

subsection \<open>Values, errors, nodes, the store\<close>

datatype js_value = JsUndefined | JsNull | JsString string | JsNumber int | JsBoolean bool

datatype error =
    MissingArgumentError string
  | TypeError string
  | RangeError
  | Error string

datatype XmlNodeType = Text | General

record XmlAttribute =
  attr_name :: string
  attr_value :: string

type_synonym ref = nat

record XmlNode =
  nodeType :: XmlNodeType
  nodeName :: string
  parentNode :: "ref option"
  childNodes :: "ref list option"
  nextSibling :: "ref option"
  textContent :: js_value
  attributes :: "XmlAttribute list option"

record store =
  heap :: "ref \<Rightarrow> XmlNode"
  fresh :: ref

definition TEXT_NODE_NAME :: string where
  "TEXT_NODE_NAME = ''#text''"

text \<open>Field assignments \<open>node.f = v\<close>.\<close>

definition set_parentNode :: "ref \<Rightarrow> ref option \<Rightarrow> store \<Rightarrow> store" where
  "set_parentNode r v s = s\<lparr>heap := (heap s)(r := (heap s r)\<lparr>parentNode := v\<rparr>)\<rparr>"

definition set_nextSibling :: "ref \<Rightarrow> ref option \<Rightarrow> store \<Rightarrow> store" where
  "set_nextSibling r v s = s\<lparr>heap := (heap s)(r := (heap s r)\<lparr>nextSibling := v\<rparr>)\<rparr>"

definition set_childNodes :: "ref \<Rightarrow> ref list option \<Rightarrow> store \<Rightarrow> store" where
  "set_childNodes r v s = s\<lparr>heap := (heap s)(r := (heap s r)\<lparr>childNodes := v\<rparr>)\<rparr>"

text \<open>\<open>new\<close>: an object literal is stored at the next unused address.\<close>

definition alloc :: "XmlNode \<Rightarrow> store \<Rightarrow> ref \<times> store" where
  "alloc n s = (fresh s, s\<lparr>heap := (heap s)(fresh s := n), fresh := Suc (fresh s)\<rparr>)"

text \<open>The child sequence of a node: the entries of \<open>childNodes\<close>, none when the field is absent.\<close>

definition children :: "store \<Rightarrow> ref \<Rightarrow> ref list" where
  "children s r = (case childNodes (heap s r) of None \<Rightarrow> [] | Some cs \<Rightarrow> cs)"

subsection \<open>Array primitives\<close>

text \<open>\<open>a[i]\<close> is \<open>undefined\<close> outside \<open>0 .. a.length - 1\<close>.\<close>

definition js_index :: "'a list \<Rightarrow> int \<Rightarrow> 'a option" where
  "js_index xs i = (if 0 \<le> i \<and> i < int (length xs) then Some (xs ! nat i) else None)"

text \<open>\<open>a.indexOf(x)\<close>: the first position of \<open>x\<close>, or \<open>-1\<close>.\<close>

fun indexOf :: "'a list \<Rightarrow> 'a \<Rightarrow> int" where
  "indexOf [] x = - 1"
| "indexOf (y # ys) x =
     (if y = x then 0 else (let i = indexOf ys x in if i = - 1 then - 1 else i + 1))"

text \<open>The start position of \<open>a.splice(start, ...)\<close>: a negative start counts from the
  end, and the result is clamped to \<open>0 .. a.length\<close>.\<close>

definition splice_start :: "'a list \<Rightarrow> int \<Rightarrow> nat" where
  "splice_start xs i =
     (if i < 0 then nat (max (int (length xs) + i) 0) else min (nat i) (length xs))"

text \<open>\<open>a.splice(i, 0, x)\<close> and what \<open>a.splice(i, 1)\<close> leaves in \<open>a\<close>.\<close>

definition splice_insert :: "'a list \<Rightarrow> int \<Rightarrow> 'a \<Rightarrow> 'a list" where
  "splice_insert xs i x = take (splice_start xs i) xs @ [x] @ drop (splice_start xs i) xs"

definition splice_remove :: "'a list \<Rightarrow> int \<Rightarrow> 'a list" where
  "splice_remove xs i = take (splice_start xs i) xs @ drop (Suc (splice_start xs i)) xs"

subsection \<open>Factories\<close>

definition createTextNode :: "js_value \<Rightarrow> XmlNode" where
  "createTextNode text =
     \<lparr>nodeType = Text, nodeName = TEXT_NODE_NAME, parentNode = None, childNodes = None,
      nextSibling = None, textContent = text, attributes = None\<rparr>"

definition createGeneralNode :: "string \<Rightarrow> XmlNode" where
  "createGeneralNode name =
     \<lparr>nodeType = General, nodeName = name, parentNode = None, childNodes = None,
      nextSibling = None, textContent = JsUndefined, attributes = None\<rparr>"

subsection \<open>Serialization\<close>

text \<open>The callback of \<open>str.replace\<close>: the \<open>switch\<close> with its fall-through \<open>return ''\<close>.\<close>

definition encode_char :: "char \<Rightarrow> string" where
  "encode_char c =
     (if c = CHR ''<'' then ''&lt;''
      else if c = CHR ''>'' then ''&gt;''
      else if c = CHR ''&'' then ''&amp;''
      else if c = CHR 0x27 then ''&apos;''
      else if c = CHR 0x22 then ''&quot;''
      else [])"

text \<open>The character class \<open>[<>&'"]\<close> of the regular expression.\<close>

definition special_char :: "char \<Rightarrow> bool" where
  "special_char c \<longleftrightarrow> c \<in> set [CHR ''<'', CHR ''>'', CHR ''&'', CHR 0x27, CHR 0x22]"

text \<open>\<open>str.replace(/[...]/g, f)\<close>: every character of the class is replaced by what
  the callback returns for it, every other character is kept. A string is a list of
  8-bit characters here and a sequence of 16-bit code units in the source; the five
  characters of the class are ASCII and every other unit is copied, so the encoding of the
  other characters makes no difference.\<close>

fun replace_all :: "(char \<Rightarrow> bool) \<Rightarrow> (char \<Rightarrow> string) \<Rightarrow> string \<Rightarrow> string" where
  "replace_all p f [] = []"
| "replace_all p f (c # cs) = (if p c then f c else [c]) @ replace_all p f cs"

text \<open>The name of the constructor of a value that is not a string, for the message of
  the type error.\<close>

fun constructor_name :: "js_value \<Rightarrow> string" where
  "constructor_name (JsNumber _) = ''Number''"
| "constructor_name (JsBoolean _) = ''Boolean''"
| "constructor_name _ = ''String''"

definition encodeValue :: "js_value \<Rightarrow> error + string" where
  "encodeValue str =
     (if str = JsNull \<or> str = JsUndefined then Inl (MissingArgumentError ''str'')
      else (case str of
              JsString s \<Rightarrow> Inr (replace_all special_char encode_char s)
            | _ \<Rightarrow> Inl (TypeError (''Expected a string, got '' @ [CHR 0x27] @ constructor_name str
                                   @ [CHR 0x27] @ ''.''))))"

text \<open>The value of the enumeration \<open>XmlNodeType\<close>, a string, as the error message of
  \<open>isTextNode\<close> prints it.\<close>

fun type_name :: "XmlNodeType \<Rightarrow> string" where
  "type_name Text = ''Text''"
| "type_name General = ''General''"

definition isTextNode :: "XmlNode \<Rightarrow> error + bool" where
  "isTextNode node =
     (if nodeType node = Text \<or> nodeName node = TEXT_NODE_NAME then
        (if \<not> (nodeType node = Text \<and> nodeName node = TEXT_NODE_NAME)
         then Inl (Error (''Invalid text node. Type: '' @ [CHR 0x27] @ type_name (nodeType node)
                          @ [CHR 0x27] @ '', Name: '' @ [CHR 0x27] @ nodeName node
                          @ [CHR 0x27] @ ''.''))
         else Inr True)
      else Inr False)"

text \<open>\<open>xs.join(sep)\<close>.\<close>

fun join :: "string \<Rightarrow> string list \<Rightarrow> string" where
  "join sep [] = []"
| "join sep [x] = x"
| "join sep (x # y # ys) = x @ sep @ join sep (y # ys)"

definition attribute_text :: "XmlAttribute \<Rightarrow> string" where
  "attribute_text attr = attr_name attr @ ''='' @ [CHR 0x22] @ attr_value attr @ [CHR 0x22]"

text \<open>\<open>xs.map(f)\<close> for a callback that may throw: the first exception ends the map.\<close>

fun map_throw :: "('a \<Rightarrow> (error + 'b) option) \<Rightarrow> 'a list \<Rightarrow> (error + 'b list) option" where
  "map_throw f [] = Some (Inr [])"
| "map_throw f (x # xs) =
     (case f x of
        None \<Rightarrow> None
      | Some (Inl e) \<Rightarrow> Some (Inl e)
      | Some (Inr y) \<Rightarrow>
          (case map_throw f xs of
             None \<Rightarrow> None
           | Some (Inl e) \<Rightarrow> Some (Inl e)
           | Some (Inr ys) \<Rightarrow> Some (Inr (y # ys))))"

text \<open>\<open>serialize\<close> recurses through the child arrays, which in a store may be cyclic; the
  first argument bounds the depth of the recursion, and \<open>None\<close> says that the bound was
  reached. It only reads the store.\<close>

fun serialize :: "nat \<Rightarrow> store \<Rightarrow> ref \<Rightarrow> (error + string) option" where
  "serialize 0 s node = None"
| "serialize (Suc depth) s node =
     (case isTextNode (heap s node) of
        Inl e \<Rightarrow> Some (Inl e)
      | Inr True \<Rightarrow>
          Some (case encodeValue (textContent (heap s node)) of
                  Inl e \<Rightarrow> Inl e
                | Inr str \<Rightarrow> Inr (if str \<noteq> [] then str else []))
      | Inr False \<Rightarrow>
          (let attrs = (case attributes (heap s node) of
                          None \<Rightarrow> []
                        | Some as \<Rightarrow> if as \<noteq> [] then '' '' @ join '' '' (map attribute_text as)
                                     else []);
               hasChildren = (length (children s node) > 0);
               suffix = (if hasChildren then [] else ''/'');
               openTag = ''<'' @ nodeName (heap s node) @ attrs @ suffix @ ''>''
           in if hasChildren then
                (case map_throw (serialize depth s) (children s node) of
                   None \<Rightarrow> None
                 | Some (Inl e) \<Rightarrow> Some (Inl e)
                 | Some (Inr xs) \<Rightarrow>
                     Some (Inr (openTag @ concat xs @ ''</'' @ nodeName (heap s node) @ ''>'')))
              else Some (Inr openTag)))"

subsection \<open>Tree mutation\<close>

text \<open>An operation returns its outcome (\<open>Inl\<close> the exception thrown) and the store it
  leaves behind. A node argument that the source tests with \<open>!x\<close> is a \<open>ref option\<close>.
  An index is any integer, as in the source, which checks the upper bound only: where
  \<open>parent.childNodes[i]\<close> is \<open>undefined\<close>, reading or writing a field of it raises a
  \<open>TypeError\<close>.\<close>

definition appendChild :: "ref option \<Rightarrow> ref option \<Rightarrow> store \<Rightarrow> (error + unit) \<times> store" where
  "appendChild parent child s =
     (case parent of
        None \<Rightarrow> (Inl (MissingArgumentError ''parent''), s)
      | Some p \<Rightarrow>
          (case isTextNode (heap s p) of
             Inl e \<Rightarrow> (Inl e, s)
           | Inr True \<Rightarrow> (Inl (Error ''Appending children to text nodes is forbidden''), s)
           | Inr False \<Rightarrow>
               (case child of
                  None \<Rightarrow> (Inl (MissingArgumentError ''child''), s)
                | Some c \<Rightarrow>
                    (let s1 = (if childNodes (heap s p) = None
                               then set_childNodes p (Some []) s else s);
                         s2 = (if children s1 p \<noteq> []
                               then set_nextSibling (last (children s1 p)) (Some c) s1 else s1);
                         s3 = set_nextSibling c None s2;
                         s4 = set_parentNode c (Some p) s3;
                         s5 = set_childNodes p (Some (children s4 p @ [c])) s4
                     in (Inr (), s5)))))"

definition insertChild ::
  "ref option \<Rightarrow> ref option \<Rightarrow> int \<Rightarrow> store \<Rightarrow> (error + unit) \<times> store" where
  "insertChild parent child childIndex s =
     (case parent of
        None \<Rightarrow> (Inl (MissingArgumentError ''parent''), s)
      | Some p \<Rightarrow>
          (case isTextNode (heap s p) of
             Inl e \<Rightarrow> (Inl e, s)
           | Inr True \<Rightarrow> (Inl (Error ''Appending children to text nodes is forbidden''), s)
           | Inr False \<Rightarrow>
               (case child of
                  None \<Rightarrow> (Inl (MissingArgumentError ''child''), s)
                | Some c \<Rightarrow>
                    (let s1 = (if childNodes (heap s p) = None
                               then set_childNodes p (Some []) s else s)
                     in if childIndex = int (length (children s1 p))
                        then appendChild parent child s1
                        else if childIndex > int (length (children s1 p))
                        then (Inl RangeError, s1)
                        else
                          (let s2 = set_parentNode c (Some p) s1;
                               childAfter = js_index (children s2 p) childIndex;
                               s3 = set_nextSibling c childAfter s2
                           in if childIndex > 0 then
                                (case js_index (children s3 p) (childIndex - 1) of
                                   None \<Rightarrow>
                                     (Inl (TypeError ''Cannot set properties of undefined''), s3)
                                 | Some childBefore \<Rightarrow>
                                     (let s4 = set_nextSibling childBefore (Some c) s3
                                      in (Inr (),
                                          set_childNodes p
                                            (Some (splice_insert (children s4 p) childIndex c)) s4)))
                              else
                                (Inr (),
                                 set_childNodes p
                                   (Some (splice_insert (children s3 p) childIndex c)) s3))))))"

text \<open>The second argument of \<open>removeChild\<close>: a node, a number, or nothing.\<close>

datatype child_or_index = ChildNode ref | ChildIndex int | NoChild

definition removeChild ::
  "ref option \<Rightarrow> child_or_index \<Rightarrow> store \<Rightarrow> (error + ref) \<times> store" where
  "removeChild parent childOrIndex s =
     (case parent of
        None \<Rightarrow> (Inl (MissingArgumentError ''parent''), s)
      | Some p \<Rightarrow>
          if childOrIndex = NoChild then (Inl (MissingArgumentError ''childOrIndex''), s)
          else if childNodes (heap s p) = None \<or> length (children s p) = 0
          then (Inl (Error ''Parent node has node children''), s)
          else
            (case (case childOrIndex of
                     ChildIndex i \<Rightarrow> Inr i
                   | _ \<Rightarrow>
                       (let i = (case childOrIndex of
                                   ChildNode c \<Rightarrow> indexOf (children s p) c
                                 | _ \<Rightarrow> - 1)
                        in if i = - 1
                           then Inl (Error ''Specified child node is not a child of the specified parent'')
                           else Inr i)) of
               Inl e \<Rightarrow> (Inl e, s)
             | Inr childIndex \<Rightarrow>
                 if childIndex \<ge> int (length (children s p)) then (Inl RangeError, s)
                 else
                   (case js_index (children s p) childIndex of
                      None \<Rightarrow> (Inl (TypeError ''Cannot set properties of undefined''), s)
                    | Some child \<Rightarrow>
                        (case (if childIndex > 0
                               then (case js_index (children s p) (childIndex - 1) of
                                       None \<Rightarrow> Inl (TypeError ''Cannot set properties of undefined'')
                                     | Some beforeChild \<Rightarrow>
                                         Inr (set_nextSibling beforeChild
                                                (nextSibling (heap s child)) s))
                               else Inr s) of
                           Inl e \<Rightarrow> (Inl e, s)
                         | Inr s1 \<Rightarrow>
                             (let s2 = set_parentNode child None s1;
                                  s3 = set_nextSibling child None s2;
                                  removed = children s3 p ! splice_start (children s3 p) childIndex;
                                  s4 = set_childNodes p
                                         (Some (splice_remove (children s3 p) childIndex)) s3
                              in (Inr removed, s4))))))"

definition remove :: "ref option \<Rightarrow> store \<Rightarrow> (error + unit) \<times> store" where
  "remove node s =
     (case node of
        None \<Rightarrow> (Inl (MissingArgumentError ''node''), s)
      | Some n \<Rightarrow>
          (case parentNode (heap s n) of
             None \<Rightarrow> (Inl (Error ''Node has no parent''), s)
           | Some p \<Rightarrow>
               (case removeChild (Some p) (ChildNode n) s of
                  (Inl e, s') \<Rightarrow> (Inl e, s')
                | (Inr _, s') \<Rightarrow> (Inr (), s'))))"

subsection \<open>Cloning\<close>

text \<open>The (name, value) copy that the deep clone makes of an attribute.\<close>

definition copy_attribute :: "XmlAttribute \<Rightarrow> XmlAttribute" where
  "copy_attribute attr = \<lparr>attr_name = attr_name attr, attr_value = attr_value attr\<rparr>"

text \<open>\<open>cloneNodeDeep\<close>: the new object gets the type and the name of the original, then
  the text of a text node or a copy of the attribute array, then a new child array filled
  by the \<open>for\<close> loop over the children of the original, which is \<open>cloneChildren\<close> with
  \<open>prevChildClone\<close> as its accumulator. The loop runs over the child array of the
  original, which it never writes: every assignment goes to an object allocated by the
  clone. The recursion follows the child arrays, so it is bounded by a depth as for
  \<open>serialize\<close>.\<close>

fun cloneNodeDeep :: "nat \<Rightarrow> ref \<Rightarrow> store \<Rightarrow> ((error + ref) \<times> store) option"
  and cloneChildren ::
    "nat \<Rightarrow> ref \<Rightarrow> ref list \<Rightarrow> ref option \<Rightarrow> store \<Rightarrow> ((error + unit) \<times> store) option"
where
  "cloneNodeDeep 0 original s = None"
| "cloneNodeDeep (Suc depth) original s =
     (let (clone, s1) =
            alloc \<lparr>nodeType = nodeType (heap s original), nodeName = nodeName (heap s original),
                   parentNode = None, childNodes = None, nextSibling = None,
                   textContent = JsUndefined, attributes = None\<rparr> s
      in case isTextNode (heap s1 original) of
           Inl e \<Rightarrow> Some (Inl e, s1)
         | Inr isText \<Rightarrow>
             (let s2 = (if isText
                        then s1\<lparr>heap := (heap s1)
                                 (clone := (heap s1 clone)
                                    \<lparr>textContent := textContent (heap s1 original)\<rparr>)\<rparr>
                        else (case attributes (heap s1 original) of
                                None \<Rightarrow> s1
                              | Some as \<Rightarrow>
                                  s1\<lparr>heap := (heap s1)
                                      (clone := (heap s1 clone)
                                         \<lparr>attributes := Some (map copy_attribute as)\<rparr>)\<rparr>))
              in case childNodes (heap s2 original) of
                   None \<Rightarrow> Some (Inr clone, s2)
                 | Some cs \<Rightarrow>
                     (case cloneChildren depth clone cs None (set_childNodes clone (Some []) s2) of
                        None \<Rightarrow> None
                      | Some (Inl e, s3) \<Rightarrow> Some (Inl e, s3)
                      | Some (Inr _, s3) \<Rightarrow> Some (Inr clone, s3))))"
| "cloneChildren depth clone [] prevChildClone s = Some (Inr (), s)"
| "cloneChildren depth clone (child # rest) prevChildClone s =
     (case cloneNodeDeep depth child s of
        None \<Rightarrow> None
      | Some (Inl e, s1) \<Rightarrow> Some (Inl e, s1)
      | Some (Inr childClone, s1) \<Rightarrow>
          (let s2 = set_childNodes clone (Some (children s1 clone @ [childClone])) s1;
               s3 = set_parentNode childClone (Some clone) s2;
               s4 = (case prevChildClone of
                       None \<Rightarrow> s3
                     | Some prev \<Rightarrow> set_nextSibling prev (Some childClone) s3)
           in cloneChildren depth clone rest (Some childClone) s4))"

text \<open>\<open>cloneNode\<close>. The shallow clone is \<open>Object.assign({}, node)\<close> with the three links
  cleared. The depth bound is used by the deep clone only.\<close>

definition cloneNode ::
  "nat \<Rightarrow> ref option \<Rightarrow> bool \<Rightarrow> store \<Rightarrow> ((error + ref) \<times> store) option" where
  "cloneNode depth node deep s =
     (case node of
        None \<Rightarrow> Some (Inl (MissingArgumentError ''node''), s)
      | Some n \<Rightarrow>
          if \<not> deep then
            (let (clone, s1) = alloc (heap s n) s;
                 s2 = set_parentNode clone None s1;
                 s3 = set_childNodes clone None s2;
                 s4 = set_nextSibling clone None s3
             in Some (Inr clone, s4))
          else
            (case cloneNodeDeep depth n s of
               None \<Rightarrow> None
             | Some (Inl e, s1) \<Rightarrow> Some (Inl e, s1)
             | Some (Inr clone, s1) \<Rightarrow> Some (Inr clone, set_parentNode clone None s1)))"

subsection \<open>Structural splitting\<close>

text \<open>
  The loops of this part need not end on every store (a cyclic parent chain, a child
  whose parent link names another node), so each takes a bound on its number of
  iterations and returns \<open>None\<close> when the bound is used up. A loop whose condition is
  false at once returns with any bound.
\<close>

text \<open>Modelled from the spec: the helper \<open>last\<close> of \<open>./utils\<close> is not among the sources.
  The spec uses it for "the last one" of a sequence; on an empty array it yields
  \<open>undefined\<close>, as any read past the end of an array does.\<close>

definition js_last :: "'a list \<Rightarrow> 'a option" where
  "js_last xs = (if xs = [] then None else Some (last xs))"

text \<open>The loop of \<open>removeSiblings\<close>; \<open>from\<close> is the loop variable, \<open>null\<close> once the
  sibling chain has ended.\<close>

fun removeSiblings_loop ::
  "nat \<Rightarrow> ref option \<Rightarrow> ref \<Rightarrow> ref list \<Rightarrow> store \<Rightarrow> ((error + ref list) \<times> store) option" where
  "removeSiblings_loop 0 from to removed s =
     (if from \<noteq> Some to then None else Some (Inr removed, s))"
| "removeSiblings_loop (Suc n) from to removed s =
     (if from \<noteq> Some to then
        (case from of
           None \<Rightarrow> Some (Inl (TypeError ''Cannot read properties of null''), s)
         | Some removeMe \<Rightarrow>
             (let from' = nextSibling (heap s removeMe)
              in case remove (Some removeMe) s of
                   (Inl e, s') \<Rightarrow> Some (Inl e, s')
                 | (Inr _, s') \<Rightarrow> removeSiblings_loop n from' to (removed @ [removeMe]) s'))
      else Some (Inr removed, s))"

definition removeSiblings ::
  "nat \<Rightarrow> ref \<Rightarrow> ref \<Rightarrow> store \<Rightarrow> ((error + ref list) \<times> store) option" where
  "removeSiblings n from to s =
     (if from = to then Some (Inr [], s)
      else removeSiblings_loop n (nextSibling (heap s from)) to [] s)"

text \<open>\<open>getDescendantPath\<close>; it only reads the store. The path is collected from the
  descendant upwards and reversed at the end.\<close>

fun getDescendantPath_loop ::
  "nat \<Rightarrow> store \<Rightarrow> ref \<Rightarrow> ref \<Rightarrow> int list \<Rightarrow> (error + int list) option" where
  "getDescendantPath_loop 0 s root node path =
     (if node \<noteq> root then None else Some (Inr path))"
| "getDescendantPath_loop (Suc n) s root node path =
     (if node \<noteq> root then
        (case parentNode (heap s node) of
           None \<Rightarrow> Some (Inl (Error ''Argument descendant is not a descendant of root''))
         | Some parent \<Rightarrow>
             (case childNodes (heap s parent) of
                None \<Rightarrow> Some (Inl (TypeError ''Cannot read properties of undefined''))
              | Some cs \<Rightarrow> getDescendantPath_loop n s root parent (path @ [indexOf cs node])))
      else Some (Inr path))"

definition getDescendantPath :: "nat \<Rightarrow> store \<Rightarrow> ref \<Rightarrow> ref \<Rightarrow> (error + int list) option" where
  "getDescendantPath n s root descendant =
     (case getDescendantPath_loop n s root descendant [] of
        None \<Rightarrow> None
      | Some (Inl e) \<Rightarrow> Some (Inl e)
      | Some (Inr path) \<Rightarrow> Some (Inr (rev path)))"

text \<open>The two loops of \<open>splitByChild\<close>. \<open>childIndex\<close> is \<open>None\<close> for \<open>NaN\<close>, the sum
  that \<open>path[0] + 1\<close> is when the path is empty; \<open>NaN < n\<close> is false and \<open>a[NaN]\<close> is
  \<open>undefined\<close>.\<close>

fun split_after_loop ::
  "nat \<Rightarrow> int option \<Rightarrow> ref \<Rightarrow> ref \<Rightarrow> store \<Rightarrow> ((error + unit) \<times> store) option" where
  "split_after_loop 0 childIndex root clone s =
     (case childNodes (heap s root) of
        None \<Rightarrow> Some (Inl (TypeError ''Cannot read properties of undefined''), s)
      | Some cs \<Rightarrow>
          (case childIndex of
             None \<Rightarrow> Some (Inr (), s)
           | Some i \<Rightarrow> if i < int (length cs) then None else Some (Inr (), s)))"
| "split_after_loop (Suc n) childIndex root clone s =
     (case childNodes (heap s root) of
        None \<Rightarrow> Some (Inl (TypeError ''Cannot read properties of undefined''), s)
      | Some cs \<Rightarrow>
          (case childIndex of
             None \<Rightarrow> Some (Inr (), s)
           | Some i \<Rightarrow>
               if i < int (length cs) then
                 (let curChild = js_index cs i
                  in case remove curChild s of
                       (Inl e, s1) \<Rightarrow> Some (Inl e, s1)
                     | (Inr _, s1) \<Rightarrow>
                         (case appendChild (Some clone) curChild s1 of
                            (Inl e, s2) \<Rightarrow> Some (Inl e, s2)
                          | (Inr _, s2) \<Rightarrow> split_after_loop n childIndex root clone s2))
               else Some (Inr (), s)))"

fun split_before_loop ::
  "nat \<Rightarrow> ref option \<Rightarrow> ref \<Rightarrow> ref \<Rightarrow> store \<Rightarrow> ((error + unit) \<times> store) option" where
  "split_before_loop 0 stopChild root clone s = None"
| "split_before_loop (Suc n) stopChild root clone s =
     (case childNodes (heap s root) of
        None \<Rightarrow> Some (Inl (TypeError ''Cannot read properties of undefined''), s)
      | Some cs \<Rightarrow>
          (let curChild = js_index cs 0
           in case remove curChild s of
                (Inl e, s1) \<Rightarrow> Some (Inl e, s1)
              | (Inr _, s1) \<Rightarrow>
                  (case appendChild (Some clone) curChild s1 of
                     (Inl e, s2) \<Rightarrow> Some (Inl e, s2)
                   | (Inr _, s2) \<Rightarrow>
                       if curChild \<noteq> stopChild then split_before_loop n stopChild root clone s2
                       else Some (Inr (), s2))))"

definition splitByChild ::
  "nat \<Rightarrow> ref \<Rightarrow> ref \<Rightarrow> bool \<Rightarrow> bool \<Rightarrow> store \<Rightarrow> ((error + ref) \<times> store) option" where
  "splitByChild n root markerNode afterMarker removeMarkerNode s =
     (case getDescendantPath n s root markerNode of
        None \<Rightarrow> None
      | Some (Inl e) \<Rightarrow> Some (Inl e, s)
      | Some (Inr path) \<Rightarrow>
          (case cloneNode 0 (Some root) False s of
             None \<Rightarrow> None
           | Some (Inl e, s1) \<Rightarrow> Some (Inl e, s1)
           | Some (Inr clone, s1) \<Rightarrow>
               (let childIndex = (case js_index path 0 of
                                    None \<Rightarrow> None
                                  | Some i \<Rightarrow> Some (i + (if afterMarker then 1 else - 1)))
                in if afterMarker then
                     (case split_after_loop n childIndex root clone s1 of
                        None \<Rightarrow> None
                      | Some (Inl e, s2) \<Rightarrow> Some (Inl e, s2)
                      | Some (Inr _, s2) \<Rightarrow>
                          if removeMarkerNode then
                            (case childNodes (heap s2 root) of
                               None \<Rightarrow>
                                 Some (Inl (TypeError ''Cannot read properties of undefined''), s2)
                             | Some cs \<Rightarrow>
                                 (case remove (js_last cs) s2 of
                                    (Inl e, s3) \<Rightarrow> Some (Inl e, s3)
                                  | (Inr _, s3) \<Rightarrow> Some (Inr clone, s3)))
                          else Some (Inr clone, s2))
                   else
                     (case childNodes (heap s1 root) of
                        None \<Rightarrow> Some (Inl (TypeError ''Cannot read properties of undefined''), s1)
                      | Some cs \<Rightarrow>
                          (let stopChild = (case childIndex of
                                              None \<Rightarrow> None
                                            | Some i \<Rightarrow> js_index cs i)
                           in case split_before_loop n stopChild root clone s1 of
                                None \<Rightarrow> None
                              | Some (Inl e, s2) \<Rightarrow> Some (Inl e, s2)
                              | Some (Inr _, s2) \<Rightarrow>
                                  if removeMarkerNode then
                                    (case childNodes (heap s2 root) of
                                       None \<Rightarrow>
                                         Some (Inl (TypeError
                                                 ''Cannot read properties of undefined''), s2)
                                     | Some cs2 \<Rightarrow>
                                         (case remove (js_index cs2 0) s2 of
                                            (Inl e, s3) \<Rightarrow> Some (Inl e, s3)
                                          | (Inr _, s3) \<Rightarrow> Some (Inr clone, s3)))
                                  else Some (Inr clone, s2))))))"

subsection \<open>The sibling-link invariant\<close>

text \<open>Invariant 3 of the data model for one child sequence: every child points at the
  next one, the last one at nothing.\<close>

fun sibling_links :: "store \<Rightarrow> ref list \<Rightarrow> bool" where
  "sibling_links s [] = True"
| "sibling_links s [x] = (nextSibling (heap s x) = None)"
| "sibling_links s (x # y # ys) = (nextSibling (heap s x) = Some y \<and> sibling_links s (y # ys))"

definition sibling_invariant :: "store \<Rightarrow> ref \<Rightarrow> bool" where
  "sibling_invariant s p = sibling_links s (children s p)"

text \<open>Invariant 4 for one node: every child names the node as its parent.\<close>

definition parent_invariant :: "store \<Rightarrow> ref \<Rightarrow> bool" where
  "parent_invariant s p = list_all (\<lambda>x. parentNode (heap s x) = Some p) (children s p)"

subsection \<open>Trees in the store\<close>



text \<open>The fields of a node that \<open>serialize\<close> reads.\<close>

definition ser_eq :: "XmlNode \<Rightarrow> XmlNode \<Rightarrow> bool" where
  "ser_eq n m \<longleftrightarrow> nodeType n = nodeType m \<and> nodeName n = nodeName m
     \<and> textContent n = textContent m \<and> attributes n = attributes m
     \<and> childNodes n = childNodes m"


subsection \<open>Descendants\<close>

text \<open>\<open>parent_chain s root node ps\<close>: \<open>ps\<close> lists the ancestors of \<open>node\<close> from its parent up
  to \<open>root\<close>, which is the last of them; every node on the way names the next one as its
  parent and is one of its children, and none of them below the last is \<open>root\<close>. With
  \<open>ps = []\<close> the node is \<open>root\<close> itself.\<close>

fun parent_chain :: "store \<Rightarrow> ref \<Rightarrow> ref \<Rightarrow> ref list \<Rightarrow> bool" where
  "parent_chain s root node [] = (node = root)"
| "parent_chain s root node (p # ps) =
     (node \<noteq> root \<and> parentNode (heap s node) = Some p \<and> node \<in> set (children s p)
      \<and> parent_chain s root p ps)"

text \<open>The top-level ancestor of a proper descendant: the node of the chain just below the
  root, which is the descendant itself when its parent is the root.\<close>

definition top_ancestor :: "ref \<Rightarrow> ref list \<Rightarrow> ref" where
  "top_ancestor node ps = (node # ps) ! (length ps - 1)"

text \<open>The position of every node of the chain among the children of its parent, from the
  descendant upwards.\<close>

fun chain_indices :: "store \<Rightarrow> ref \<Rightarrow> ref list \<Rightarrow> int list" where
  "chain_indices s node [] = []"
| "chain_indices s node (p # ps) = indexOf (children s p) node # chain_indices s p ps"

text \<open>The fields of a node other than its three links: what a shallow clone keeps.\<close>

definition scalars :: "XmlNode \<Rightarrow> XmlNode" where
  "scalars n = n\<lparr>parentNode := None, childNodes := None, nextSibling := None\<rparr>"

subsection \<open>Example stores\<close>

text \<open>The tree of the scenario of the specification: \<open>p\<close> with the children text \<open>a\<close>,
  \<open>b\<close> (with the child text \<open>x\<close>) and text \<open>c\<close>, at the addresses 0 to 4.\<close>

definition scenario_store :: store where
  "scenario_store =
     \<lparr>heap = (\<lambda>_. createGeneralNode ''unused'')
        (0 := (createGeneralNode ''p'')\<lparr>childNodes := Some [1, 2, 3]\<rparr>,
         1 := (createTextNode (JsString ''a''))\<lparr>parentNode := Some 0, nextSibling := Some 2\<rparr>,
         2 := (createGeneralNode ''b'')
                \<lparr>parentNode := Some 0, childNodes := Some [4], nextSibling := Some 3\<rparr>,
         3 := (createTextNode (JsString ''c''))\<lparr>parentNode := Some 0\<rparr>,
         4 := (createTextNode (JsString ''x''))\<lparr>parentNode := Some 2\<rparr>),
      fresh = 5\<rparr>"

text \<open>Two nodes just created: a general node \<open>p\<close> at 0 and a general node \<open>c\<close> at 1.\<close>

definition new_nodes_store :: store where
  "new_nodes_store =
     \<lparr>heap = (\<lambda>_. createGeneralNode ''unused'')
        (0 := createGeneralNode ''p'', 1 := createGeneralNode ''c''),
      fresh = 2\<rparr>"

text \<open>A text node created by \<open>createTextNode()\<close>, at 0.\<close>

definition absent_text_store :: store where
  "absent_text_store =
     \<lparr>heap = (\<lambda>_. createGeneralNode ''unused'')(0 := createTextNode JsUndefined), fresh = 1\<rparr>"

subsection \<open>Reading a result\<close>

text \<open>The outcome of a bounded run, and the child sequence of a node in the store it
  leaves behind.\<close>

definition outcome :: "((error + 'a) \<times> store) option \<Rightarrow> (error + 'a) option" where
  "outcome res = map_option fst res"

definition final_children :: "((error + 'a) \<times> store) option \<Rightarrow> ref \<Rightarrow> ref list option" where
  "final_children res r = map_option (\<lambda>(x, s). children s r) res"

section \<open>Properties\<close>

lemmas upd_defs = set_parentNode_def set_nextSibling_def set_childNodes_def children_def

lemma isTextNode_upd [simp]:
  "isTextNode (n\<lparr>childNodes := v\<rparr>) = isTextNode n"
  "isTextNode (n\<lparr>parentNode := w\<rparr>) = isTextNode n"
  "isTextNode (n\<lparr>nextSibling := w\<rparr>) = isTextNode n"
  by (simp_all add: isTextNode_def)

subsection \<open>Store updates and array primitives\<close>

lemma heap_set [simp]:
  "heap (set_parentNode r v s) x = (if x = r then (heap s r)\<lparr>parentNode := v\<rparr> else heap s x)"
  "heap (set_nextSibling r w s) x = (if x = r then (heap s r)\<lparr>nextSibling := w\<rparr> else heap s x)"
  "heap (set_childNodes r u s) x = (if x = r then (heap s r)\<lparr>childNodes := u\<rparr> else heap s x)"
  by (simp_all add: upd_defs)

lemma fresh_set [simp]:
  "fresh (set_parentNode r v s) = fresh s"
  "fresh (set_nextSibling r w s) = fresh s"
  "fresh (set_childNodes r u s) = fresh s"
  by (simp_all add: upd_defs)

lemma children_set [simp]:
  "children (set_parentNode r v s) x = children s x"
  "children (set_nextSibling r w s) x = children s x"
  "children (set_childNodes r u s) x = (if x = r then (case u of None \<Rightarrow> [] | Some cs \<Rightarrow> cs) else children s x)"
  by (simp_all add: upd_defs)

lemma children_None: "childNodes (heap s p) = None \<Longrightarrow> children s p = []"
  by (simp add: children_def)

lemma appendChild_effect:
  assumes "isTextNode (heap s p) = Inr False"
  shows "\<exists>s'. appendChild (Some p) (Some c) s = (Inr (), s')
     \<and> children s' p = children s p @ [c]
     \<and> (\<forall>x. nextSibling (heap s' x) =
              (if x = c then None
               else if children s p \<noteq> [] \<and> x = last (children s p) then Some c
               else nextSibling (heap s x)))
     \<and> (\<forall>x. parentNode (heap s' x) = (if x = c then Some p else parentNode (heap s x)))
     \<and> (\<forall>x. x \<noteq> p \<longrightarrow> childNodes (heap s' x) = childNodes (heap s x))
     \<and> (\<forall>x. isTextNode (heap s' x) = isTextNode (heap s x))
     \<and> fresh s' = fresh s"
  using assms
  by (auto simp add: appendChild_def Let_def children_None)


lemma indexOf_notin: "x \<notin> set xs \<Longrightarrow> indexOf xs x = - 1"
  by (induction xs) (auto simp: Let_def)

lemma indexOf_in:
  "x \<in> set xs \<Longrightarrow> 0 \<le> indexOf xs x \<and> indexOf xs x < int (length xs) \<and> xs ! nat (indexOf xs x) = x"
proof (induction xs)
  case Nil then show ?case by simp
next
  case (Cons y ys)
  show ?case
  proof (cases "y = x")
    case True then show ?thesis by simp
  next
    case False
    with Cons have "x \<in> set ys" by simp
    from Cons.IH[OF this] False show ?thesis
      by (simp add: Let_def nat_add_distrib)
  qed
qed

lemma indexOf_distinct: "distinct xs \<Longrightarrow> k < length xs \<Longrightarrow> indexOf xs (xs ! k) = int k"
proof (induction xs arbitrary: k)
  case Nil then show ?case by simp
next
  case (Cons y ys)
  show ?case
  proof (cases k)
    case 0 then show ?thesis by simp
  next
    case (Suc j)
    with Cons.prems have "j < length ys" "distinct ys" "ys ! j \<noteq> y" by auto
    with Cons.IH[of j] Suc show ?thesis by (auto simp: Let_def)
  qed
qed

lemma children_Some: "children s p \<noteq> [] \<Longrightarrow> childNodes (heap s p) = Some (children s p)"
  by (cases "childNodes (heap s p)") (simp_all add: children_def)

lemma splice_start_nat [simp]: "k < length xs \<Longrightarrow> splice_start xs (int k) = k"
  by (simp add: splice_start_def)

lemma js_index_nat [simp]: "js_index xs (int k) = (if k < length xs then Some (xs ! k) else None)"
  by (simp add: js_index_def)

lemma removeChild_index_eq:
  assumes "k < length (children s p)"
  shows "removeChild (Some p) (ChildIndex (int k)) s =
    (Inr (children s p ! k),
     set_childNodes p (Some (take k (children s p) @ drop (Suc k) (children s p)))
       (set_nextSibling (children s p ! k) None
          (set_parentNode (children s p ! k) None
             (if 0 < k then set_nextSibling (children s p ! (k - 1))
                              (nextSibling (heap s (children s p ! k))) s
              else s))))"
proof -
  from assms have ne: "children s p \<noteq> []" by auto
  note cs = children_Some[OF ne]
  have k: "nat (int k - 1) = k - 1" "(0 < int k) = (0 < k)" "(int k - 1 < int (length (children s p)))"
    "0 < k \<Longrightarrow> 0 \<le> int k - 1"
    using assms by auto
  show ?thesis using assms cs ne k
    by (simp add: removeChild_def splice_remove_def Let_def js_index_def splice_start_def
        del: of_nat_less_0_iff)
qed

lemma removeChild_index_effect:
  assumes "k < length (children s p)"
  shows "\<exists>s'. removeChild (Some p) (ChildIndex (int k)) s = (Inr (children s p ! k), s')
     \<and> children s' p = take k (children s p) @ drop (Suc k) (children s p)
     \<and> (\<forall>x. nextSibling (heap s' x) =
              (if x = children s p ! k then None
               else if 0 < k \<and> x = children s p ! (k - 1) then nextSibling (heap s (children s p ! k))
               else nextSibling (heap s x)))
     \<and> (\<forall>x. parentNode (heap s' x) = (if x = children s p ! k then None else parentNode (heap s x)))
     \<and> (\<forall>x. x \<noteq> p \<longrightarrow> childNodes (heap s' x) = childNodes (heap s x))
     \<and> (\<forall>x. isTextNode (heap s' x) = isTextNode (heap s x))
     \<and> fresh s' = fresh s"
  unfolding removeChild_index_eq[OF assms]
  by auto

lemma removeChild_node_eq:
  assumes "c \<in> set (children s p)"
  shows "removeChild (Some p) (ChildNode c) s
           = removeChild (Some p) (ChildIndex (indexOf (children s p) c)) s"
proof -
  from assms have ne: "children s p \<noteq> []" by auto
  note cs = children_Some[OF ne]
  from indexOf_in[OF assms] have "indexOf (children s p) c \<noteq> - 1" by auto
  then show ?thesis using ne cs
    by (simp add: removeChild_def Let_def)
qed

subsection \<open>Escaping\<close>

lemma replace_all_map: "replace_all p f s = concat (map (\<lambda>c. if p c then f c else [c]) s)"
  by (induction s) simp_all

text \<open>
  Claim C8. \<open>encodeValue\<close> replaces each of the five characters \<open><\<close>, \<open>>\<close>, \<open>&\<close>,
  \<open>'\<close>, \<open>"\<close> by its named entity and keeps every other character; the string of the
  specification's example is escaped as stated there and the empty string gives the empty
  string; an absent argument (\<open>undefined\<close> or \<open>null\<close>) raises the missing-argument
  error and a value that is not a string raises a type error.
\<close>

theorem encodeValue_escapes:
  "encodeValue (JsString s) =
     Inr (concat (map (\<lambda>c. if c = CHR ''<'' then ''&lt;''
                           else if c = CHR ''>'' then ''&gt;''
                           else if c = CHR ''&'' then ''&amp;''
                           else if c = CHR 0x27 then ''&apos;''
                           else if c = CHR 0x22 then ''&quot;''
                           else [c]) s))
   \<and> encodeValue (JsString (''<a&b>'' @ [CHR 0x27, CHR 0x22])) = Inr ''&lt;a&amp;b&gt;&apos;&quot;''
   \<and> encodeValue (JsString []) = Inr []
   \<and> encodeValue JsUndefined = Inl (MissingArgumentError ''str'')
   \<and> encodeValue JsNull = Inl (MissingArgumentError ''str'')
   \<and> encodeValue (JsNumber n) = Inl (TypeError ''Expected a string, got 'Number'.'')
   \<and> encodeValue (JsBoolean b) = Inl (TypeError ''Expected a string, got 'Boolean'.'')"
proof -
  have "(\<lambda>c. if special_char c then encode_char c else [c]) =
        (\<lambda>c. if c = CHR ''<'' then ''&lt;''
              else if c = CHR ''>'' then ''&gt;''
              else if c = CHR ''&'' then ''&amp;''
              else if c = CHR 0x27 then ''&apos;''
              else if c = CHR 0x22 then ''&quot;''
              else [c])"
    by (rule ext) (simp add: special_char_def encode_char_def)
  then have "encodeValue (JsString s) =
     Inr (concat (map (\<lambda>c. if c = CHR ''<'' then ''&lt;''
                           else if c = CHR ''>'' then ''&gt;''
                           else if c = CHR ''&'' then ''&amp;''
                           else if c = CHR 0x27 then ''&apos;''
                           else if c = CHR 0x22 then ''&quot;''
                           else [c]) s))"
    by (simp add: encodeValue_def replace_all_map)
  moreover have "encodeValue (JsString (''<a&b>'' @ [CHR 0x27, CHR 0x22]))
                   = Inr ''&lt;a&amp;b&gt;&apos;&quot;''"
    by (simp add: encodeValue_def special_char_def encode_char_def)
  ultimately show ?thesis
    by (simp add: encodeValue_def)
qed

subsection \<open>Serializing a text node\<close>

text \<open>A text node whose content is a string serializes to the escaped content.\<close>

lemma serialize_text_string:
  "isTextNode (heap s r) = Inr True \<Longrightarrow> textContent (heap s r) = JsString str \<Longrightarrow>
   serialize (Suc d) s r = Some (encodeValue (JsString str))"
  by (simp add: encodeValue_def)

text \<open>
  Claim C2 says that \<open>serialize\<close> returns the empty string for a text node whose content
  is absent and never fails on such a node. In the source the fallback \<open>|| ''\<close> is applied
  to the result of \<open>encodeValue\<close>, which has thrown by then: serializing the node that
  \<open>createTextNode()\<close> returns raises the missing-argument error.
\<close>

theorem serialize_absent_text_throws:
  "heap absent_text_store 0 = createTextNode JsUndefined
   \<and> serialize (Suc d) absent_text_store 0 = Some (Inl (MissingArgumentError ''str''))"
  by (simp add: absent_text_store_def createTextNode_def TEXT_NODE_NAME_def isTextNode_def
      encodeValue_def)

subsection \<open>Inserting at or beyond the end\<close>

lemma insertChild_at_count:
  "insertChild (Some p) child (int (length (children s p))) s = appendChild (Some p) child s"
proof (cases "childNodes (heap s p)")
  case None
  then have "children s p = []"
    by (simp add: children_def)
  with None show ?thesis
    by (simp add: insertChild_def appendChild_def upd_defs
        split: sum.splits bool.splits option.splits)
next
  case (Some cs)
  then show ?thesis
    by (simp add: insertChild_def appendChild_def upd_defs
        split: sum.splits bool.splits option.splits)
qed

lemma insertChild_beyond_count:
  "isTextNode (heap s p) = Inr False \<Longrightarrow> int (length (children s p)) < childIndex \<Longrightarrow>
     insertChild (Some p) (Some c) childIndex s =
       (Inl RangeError, if childNodes (heap s p) = None then set_childNodes p (Some []) s else s)"
  by (auto simp add: insertChild_def split: sum.splits bool.splits option.splits)

text \<open>
  Claim C5, first half, and what holds of its second half. \<open>insertChild\<close> with the index
  equal to the number of children is \<open>appendChild\<close>: same outcome, same store. With a
  larger index on a parent that is not a text node it raises the out-of-range error; no
  link, child sequence or content of any node has changed then, but a parent whose child
  array was absent has been given an empty one before the index was checked.
\<close>

theorem insertChild_at_or_beyond_count:
  "insertChild (Some p) child (int (length (children s p))) s = appendChild (Some p) child s
   \<and> (isTextNode (heap s p) = Inr False \<and> int (length (children s p)) < childIndex \<longrightarrow>
        (\<exists>s'. insertChild (Some p) (Some c) childIndex s = (Inl RangeError, s')
           \<and> s' = (if childNodes (heap s p) = None then set_childNodes p (Some []) s else s)
           \<and> (\<forall>q. children s' q = children s q
                  \<and> (heap s' q)\<lparr>childNodes := None\<rparr> = (heap s q)\<lparr>childNodes := None\<rparr>)))"
proof -
  have "\<forall>q. children (if childNodes (heap s p) = None
                       then set_childNodes p (Some []) s else s) q = children s q
          \<and> (heap (if childNodes (heap s p) = None
                    then set_childNodes p (Some []) s else s) q)\<lparr>childNodes := None\<rparr>
             = (heap s q)\<lparr>childNodes := None\<rparr>"
    by (simp add: children_def)
  then show ?thesis
    using insertChild_at_count[of p child s] insertChild_beyond_count[of s p childIndex c]
    by simp
qed

theorem insertChild_at_or_beyond_count_witness:
  "isTextNode (heap scenario_store 0) = Inr False
   \<and> int (length (children scenario_store 0)) < 7
   \<and> insertChild (Some 0) (Some 5) 7 scenario_store = (Inl RangeError, scenario_store)
   \<and> insertChild (Some 0) (Some 5) 3 scenario_store = appendChild (Some 0) (Some 5) scenario_store"
proof -
  have a: "isTextNode (heap scenario_store 0) = Inr False"
    by (simp add: scenario_store_def isTextNode_def createGeneralNode_def TEXT_NODE_NAME_def)
  have b: "children scenario_store 0 = [1, 2, 3]"
    by (simp add: scenario_store_def children_def)
  have c: "childNodes (heap scenario_store 0) \<noteq> None"
    by (simp add: scenario_store_def)
  show ?thesis
    using insertChild_at_or_beyond_count [of 0 "Some 5" scenario_store 7 5] a b c
    by simp
qed

text \<open>
  Claim C5 as stated fails where it says that the failed call leaves the tree as it was:
  on a node just created, whose child array is absent, the call with index 1 raises the
  out-of-range error and leaves the node with an empty child array.
\<close>

theorem insertChild_out_of_range_counterexample:
  "fst (insertChild (Some 0) (Some 1) 1 new_nodes_store) = Inl RangeError
   \<and> childNodes (heap new_nodes_store 0) = None
   \<and> childNodes (heap (snd (insertChild (Some 0) (Some 1) 1 new_nodes_store)) 0) = Some []
   \<and> snd (insertChild (Some 0) (Some 1) 1 new_nodes_store) \<noteq> new_nodes_store"
proof -
  have "childNodes (heap new_nodes_store 0) = None"
    by (simp add: new_nodes_store_def createGeneralNode_def)
  moreover have "insertChild (Some 0) (Some 1) 1 new_nodes_store
                   = (Inl RangeError, set_childNodes 0 (Some []) new_nodes_store)"
    by (simp add: insertChild_def new_nodes_store_def createGeneralNode_def isTextNode_def
        TEXT_NODE_NAME_def upd_defs)
  moreover have "childNodes (heap (set_childNodes 0 (Some []) new_nodes_store) 0) = Some []"
    by (simp add: set_childNodes_def)
  ultimately show ?thesis
    by (metis fst_conv snd_conv option.distinct(1))
qed

subsection \<open>Removing a child\<close>

lemma removeChild_errors:
  "coi \<noteq> NoChild \<Longrightarrow> children s p = [] \<Longrightarrow>
     removeChild (Some p) coi s = (Inl (Error ''Parent node has node children''), s)"
  "children s p \<noteq> [] \<Longrightarrow> int (length (children s p)) \<le> i \<Longrightarrow>
     removeChild (Some p) (ChildIndex i) s = (Inl RangeError, s)"
  "children s p \<noteq> [] \<Longrightarrow> i < 0 \<Longrightarrow>
     removeChild (Some p) (ChildIndex i) s
       = (Inl (TypeError ''Cannot set properties of undefined''), s)"
  "children s p \<noteq> [] \<Longrightarrow> c \<notin> set (children s p) \<Longrightarrow>
     removeChild (Some p) (ChildNode c) s
       = (Inl (Error ''Specified child node is not a child of the specified parent''), s)"
     apply (simp add: removeChild_def children_def split: option.splits)
    apply (simp add: removeChild_def children_Some)
   apply (simp add: removeChild_def children_Some js_index_def)
  apply (simp add: removeChild_def children_Some indexOf_notin)
  done

lemma removeChild_success_cases:
  assumes "removeChild (Some p) coi s = (Inr r, s')"
  shows "\<exists>k<length (children s p). r = children s p ! k
     \<and> (coi = ChildIndex (int k) \<or> coi = ChildNode r \<and> indexOf (children s p) r = int k)
     \<and> removeChild (Some p) (ChildIndex (int k)) s = (Inr r, s')"
proof (cases coi)
  case NoChild
  with assms show ?thesis by (simp add: removeChild_def)
next
  case (ChildIndex i)
  have ne: "children s p \<noteq> []"
    using assms ChildIndex removeChild_errors(1)[where coi=coi and s=s and p=p] by auto
  have "0 \<le> i" "i < int (length (children s p))"
    using assms ChildIndex removeChild_errors(2,3)[OF ne, where i=i] by (auto simp: not_le[symmetric])
  then obtain k where k: "i = int k" "k < length (children s p)"
    by (metis nat_less_iff nonneg_int_cases of_nat_less_iff)
  with assms ChildIndex removeChild_index_eq[OF k(2)] show ?thesis
    by auto
next
  case (ChildNode c)
  have ne: "children s p \<noteq> []"
    using assms ChildNode removeChild_errors(1)[where coi=coi and s=s and p=p] by auto
  have cin: "c \<in> set (children s p)"
    using assms ChildNode removeChild_errors(4)[OF ne, where c=c] by auto
  from indexOf_in[OF cin] obtain k where
    k: "indexOf (children s p) c = int k" "k < length (children s p)" "children s p ! k = c"
    by (metis nat_less_iff nonneg_int_cases of_nat_less_iff nat_int)
  with assms ChildNode removeChild_node_eq[OF cin] removeChild_index_eq[OF k(2)] show ?thesis
    by auto
qed

text \<open>
  Claim C4. \<open>removeChild\<close> fails, leaving the store as it was, when the parent has no
  children, when a numeric index is at or beyond the number of children or negative, and
  when a node argument is not among the children. It succeeds for every index in range
  and every child given as a node. On success the node returned is the child \<open>r\<close> at the
  position \<open>j\<close> asked for (the first position of the node, when a node is given); its
  \<open>parentNode\<close> and \<open>nextSibling\<close> are cleared; its predecessor, when there is one, has
  the former \<open>nextSibling\<close> of \<open>r\<close> as its \<open>nextSibling\<close> (stated for a predecessor that
  is another object than \<open>r\<close>, as it is whenever the children are distinct); and the child
  sequence is the old one without position \<open>j\<close>.
\<close>

theorem removeChild_fails_or_relinks:
  "(coi \<noteq> NoChild \<and> children s p = [] \<longrightarrow>
      removeChild (Some p) coi s = (Inl (Error ''Parent node has node children''), s))
   \<and> (children s p \<noteq> [] \<and> int (length (children s p)) \<le> i \<longrightarrow>
      removeChild (Some p) (ChildIndex i) s = (Inl RangeError, s))
   \<and> (children s p \<noteq> [] \<and> i < 0 \<longrightarrow>
      removeChild (Some p) (ChildIndex i) s
        = (Inl (TypeError ''Cannot set properties of undefined''), s))
   \<and> (children s p \<noteq> [] \<and> c \<notin> set (children s p) \<longrightarrow>
      removeChild (Some p) (ChildNode c) s
        = (Inl (Error ''Specified child node is not a child of the specified parent''), s))
   \<and> (k < length (children s p) \<longrightarrow>
        (\<exists>s'. removeChild (Some p) (ChildIndex (int k)) s = (Inr (children s p ! k), s')))
   \<and> (c \<in> set (children s p) \<longrightarrow>
        (\<exists>s'. removeChild (Some p) (ChildNode c) s = (Inr c, s')))
   \<and> (removeChild (Some p) coi s = (Inr r, s') \<longrightarrow>
        (\<exists>j<length (children s p).
            r = children s p ! j
          \<and> (coi = ChildIndex (int j) \<or> coi = ChildNode r \<and> indexOf (children s p) r = int j)
          \<and> (0 < j \<and> children s p ! (j - 1) \<noteq> r \<longrightarrow>
               nextSibling (heap s' (children s p ! (j - 1))) = nextSibling (heap s r))
          \<and> parentNode (heap s' r) = None
          \<and> nextSibling (heap s' r) = None
          \<and> children s' p = take j (children s p) @ drop (Suc j) (children s p)))"
proof -
  have a: "k < length (children s p) \<longrightarrow>
        (\<exists>s'. removeChild (Some p) (ChildIndex (int k)) s = (Inr (children s p ! k), s'))"
    using removeChild_index_eq[of k s p] by simp
  have b: "c \<in> set (children s p) \<longrightarrow>
        (\<exists>s'. removeChild (Some p) (ChildNode c) s = (Inr c, s'))"
  proof
    assume cin: "c \<in> set (children s p)"
    from indexOf_in[OF cin] obtain m where
      m: "indexOf (children s p) c = int m" "m < length (children s p)" "children s p ! m = c"
      by (metis nat_less_iff nonneg_int_cases of_nat_less_iff nat_int)
    show "\<exists>s'. removeChild (Some p) (ChildNode c) s = (Inr c, s')"
      using removeChild_node_eq[OF cin] removeChild_index_eq[OF m(2)] m by simp
  qed
  have d: "removeChild (Some p) coi s = (Inr r, s') \<longrightarrow>
        (\<exists>j<length (children s p).
            r = children s p ! j
          \<and> (coi = ChildIndex (int j) \<or> coi = ChildNode r \<and> indexOf (children s p) r = int j)
          \<and> (0 < j \<and> children s p ! (j - 1) \<noteq> r \<longrightarrow>
               nextSibling (heap s' (children s p ! (j - 1))) = nextSibling (heap s r))
          \<and> parentNode (heap s' r) = None
          \<and> nextSibling (heap s' r) = None
          \<and> children s' p = take j (children s p) @ drop (Suc j) (children s p))"
  proof
    assume ok: "removeChild (Some p) coi s = (Inr r, s')"
    from removeChild_success_cases[OF ok] obtain j where
      j: "j < length (children s p)" "r = children s p ! j"
         "coi = ChildIndex (int j) \<or> coi = ChildNode r \<and> indexOf (children s p) r = int j"
         "removeChild (Some p) (ChildIndex (int j)) s = (Inr r, s')"
      by blast
    from removeChild_index_effect[OF j(1)] j(4) j(2)
    have "(0 < j \<and> children s p ! (j - 1) \<noteq> r \<longrightarrow>
               nextSibling (heap s' (children s p ! (j - 1))) = nextSibling (heap s r))
          \<and> parentNode (heap s' r) = None
          \<and> nextSibling (heap s' r) = None
          \<and> children s' p = take j (children s p) @ drop (Suc j) (children s p)"
      by auto
    with j show "(\<exists>j<length (children s p).
            r = children s p ! j
          \<and> (coi = ChildIndex (int j) \<or> coi = ChildNode r \<and> indexOf (children s p) r = int j)
          \<and> (0 < j \<and> children s p ! (j - 1) \<noteq> r \<longrightarrow>
               nextSibling (heap s' (children s p ! (j - 1))) = nextSibling (heap s r))
          \<and> parentNode (heap s' r) = None
          \<and> nextSibling (heap s' r) = None
          \<and> children s' p = take j (children s p) @ drop (Suc j) (children s p))"
      by blast
  qed
  show ?thesis
    using removeChild_errors(1)[where coi=coi and s=s and p=p]
      removeChild_errors(2,3)[where s=s and p=p and i=i]
      removeChild_errors(4)[where s=s and p=p and c=c] a b d
    by blast
qed


lemma scenario_children:
  "children scenario_store 0 = [1, 2, 3]" "children scenario_store 4 = []"
  "children scenario_store 2 = [4]"
  by (simp_all add: scenario_store_def children_def createTextNode_def createGeneralNode_def)

theorem removeChild_fails_or_relinks_witness:
  "removeChild (Some 4) (ChildIndex 0) scenario_store
     = (Inl (Error ''Parent node has node children''), scenario_store)
   \<and> removeChild (Some 0) (ChildIndex 3) scenario_store = (Inl RangeError, scenario_store)
   \<and> removeChild (Some 0) (ChildIndex (- 1)) scenario_store
       = (Inl (TypeError ''Cannot set properties of undefined''), scenario_store)
   \<and> removeChild (Some 0) (ChildNode 4) scenario_store
       = (Inl (Error ''Specified child node is not a child of the specified parent''),
          scenario_store)
   \<and> fst (removeChild (Some 0) (ChildIndex 1) scenario_store) = Inr 2
   \<and> fst (removeChild (Some 0) (ChildNode 2) scenario_store) = Inr 2
   \<and> nextSibling (heap (snd (removeChild (Some 0) (ChildNode 2) scenario_store)) 1) = Some 3
   \<and> parentNode (heap (snd (removeChild (Some 0) (ChildNode 2) scenario_store)) 2) = None
   \<and> nextSibling (heap (snd (removeChild (Some 0) (ChildNode 2) scenario_store)) 2) = None
   \<and> children (snd (removeChild (Some 0) (ChildNode 2) scenario_store)) 0 = [1, 3]"
proof -
  note c = scenario_children
  have n3: "nextSibling (heap scenario_store 2) = Some 3"
    by (simp add: scenario_store_def createGeneralNode_def)
  have e1: "removeChild (Some 4) (ChildIndex 0) scenario_store
     = (Inl (Error ''Parent node has node children''), scenario_store)"
    using removeChild_fails_or_relinks
      [of "ChildIndex 0" scenario_store 4 0 0 0 0 scenario_store] c
    by simp
  have e2: "removeChild (Some 0) (ChildIndex 3) scenario_store = (Inl RangeError, scenario_store)
   \<and> removeChild (Some 0) (ChildNode 4) scenario_store
       = (Inl (Error ''Specified child node is not a child of the specified parent''),
          scenario_store)
   \<and> fst (removeChild (Some 0) (ChildIndex 1) scenario_store) = Inr 2"
    using removeChild_fails_or_relinks
      [of "ChildIndex 0" scenario_store 0 3 4 1 0 scenario_store] c
    by auto
  have e3: "removeChild (Some 0) (ChildIndex (- 1)) scenario_store
       = (Inl (TypeError ''Cannot set properties of undefined''), scenario_store)
   \<and> fst (removeChild (Some 0) (ChildNode 2) scenario_store) = Inr 2"
    using removeChild_fails_or_relinks
      [of "ChildIndex 0" scenario_store 0 "- 1" 2 1 0 scenario_store] c
    by auto
  then have ok: "removeChild (Some 0) (ChildNode 2) scenario_store
              = (Inr 2, snd (removeChild (Some 0) (ChildNode 2) scenario_store))"
    by (metis prod.collapse)
  have j: "\<And>j. j < 3 \<Longrightarrow> (2::nat) = [1, 2, 3] ! j \<Longrightarrow> j = 1"
    by (auto simp add: less_Suc_eq numeral_3_eq_3)
  have e6: "nextSibling (heap (snd (removeChild (Some 0) (ChildNode 2) scenario_store)) 1) = Some 3
   \<and> parentNode (heap (snd (removeChild (Some 0) (ChildNode 2) scenario_store)) 2) = None
   \<and> nextSibling (heap (snd (removeChild (Some 0) (ChildNode 2) scenario_store)) 2) = None
   \<and> children (snd (removeChild (Some 0) (ChildNode 2) scenario_store)) 0 = [1, 3]"
    using removeChild_fails_or_relinks [of "ChildNode 2" scenario_store 0 0 0 0 2
        "snd (removeChild (Some 0) (ChildNode 2) scenario_store)"] ok c n3
    by (auto dest!: j)
  show ?thesis
    using e1 e2 e3 e6 by simp
qed

subsection \<open>Appending and removing again\<close>

lemma indexOf_append_notin: "x \<notin> set xs \<Longrightarrow> indexOf (xs @ [x]) x = int (length xs)"
  by (induction xs) (auto simp: Let_def)

lemma parent_invariant_notin:
  "parent_invariant s p \<Longrightarrow> parentNode (heap s c) = None \<Longrightarrow> c \<notin> set (children s p)"
  by (auto simp: parent_invariant_def list_all_iff)

text \<open>
  Claim C6. Let \<open>p\<close> be a node that is not a text node, whose children name it as their
  parent (invariant 4), and let \<open>c\<close> be a node without a parent. Then \<open>appendChild(p, c)\<close>
  succeeds, \<open>removeChild(p, c)\<close> after it succeeds and returns \<open>c\<close>, the child sequence of
  \<open>p\<close> and its length are what they were before the two calls, and \<open>c\<close> has neither a
  \<open>parentNode\<close> nor a \<open>nextSibling\<close>.
\<close>

theorem appendChild_then_removeChild:
  assumes "isTextNode (heap s p) = Inr False"
    and "parentNode (heap s c) = None"
    and "parent_invariant s p"
  shows "\<exists>s1 s2. appendChild (Some p) (Some c) s = (Inr (), s1)
           \<and> removeChild (Some p) (ChildNode c) s1 = (Inr c, s2)
           \<and> children s2 p = children s p
           \<and> length (children s2 p) = length (children s p)
           \<and> parentNode (heap s2 c) = None
           \<and> nextSibling (heap s2 c) = None"
proof -
  have notin: "c \<notin> set (children s p)"
    using assms(2,3) by (rule parent_invariant_notin[rotated])
  from appendChild_effect[OF assms(1), of c] obtain s1 where
    s1: "appendChild (Some p) (Some c) s = (Inr (), s1)" "children s1 p = children s p @ [c]"
    by blast
  let ?k = "length (children s p)"
  have k: "?k < length (children s1 p)" "children s1 p ! ?k = c"
    using s1(2) by simp_all
  have cin: "c \<in> set (children s1 p)" using s1(2) by simp
  have idx: "indexOf (children s1 p) c = int ?k"
    using s1(2) notin by (simp add: indexOf_append_notin)
  from removeChild_index_effect[OF k(1)] obtain s2 where
    s2: "removeChild (Some p) (ChildIndex (int ?k)) s1 = (Inr (children s1 p ! ?k), s2)"
      "children s2 p = take ?k (children s1 p) @ drop (Suc ?k) (children s1 p)"
      "\<forall>x. nextSibling (heap s2 x) =
              (if x = children s1 p ! ?k then None
               else if 0 < ?k \<and> x = children s1 p ! (?k - 1) then nextSibling (heap s1 (children s1 p ! ?k))
               else nextSibling (heap s1 x))"
      "\<forall>x. parentNode (heap s2 x) = (if x = children s1 p ! ?k then None else parentNode (heap s1 x))"
    by blast
  have "removeChild (Some p) (ChildNode c) s1 = (Inr c, s2)"
    using removeChild_node_eq[OF cin] idx s2(1) k(2) by simp
  moreover have "children s2 p = children s p"
    using s2(2) s1(2) by simp
  moreover have "parentNode (heap s2 c) = None" "nextSibling (heap s2 c) = None"
    using s2(3,4) k(2) by simp_all
  ultimately show ?thesis using s1(1) by simp
qed

theorem appendChild_then_removeChild_witness:
  "isTextNode (heap scenario_store 0) = Inr False
   \<and> parentNode (heap scenario_store 5) = None
   \<and> parent_invariant scenario_store 0
   \<and> children scenario_store 0 = [1, 2, 3]
   \<and> (\<exists>s1 s2. appendChild (Some 0) (Some 5) scenario_store = (Inr (), s1)
           \<and> removeChild (Some 0) (ChildNode 5) s1 = (Inr 5, s2)
           \<and> children s2 0 = [1, 2, 3]
           \<and> parentNode (heap s2 5) = None
           \<and> nextSibling (heap s2 5) = None)"
proof -
  have a: "isTextNode (heap scenario_store 0) = Inr False"
    by (simp add: scenario_store_def isTextNode_def createGeneralNode_def TEXT_NODE_NAME_def)
  have b: "parentNode (heap scenario_store 5) = None"
    by (simp add: scenario_store_def createGeneralNode_def)
  have c: "parent_invariant scenario_store 0"
    by (simp add: parent_invariant_def scenario_children)
       (simp add: scenario_store_def createGeneralNode_def createTextNode_def)
  show ?thesis
    using appendChild_then_removeChild [OF a b c] a b c scenario_children(1)
    by auto
qed

subsection \<open>Sibling links\<close>

lemma sibling_links_nth:
  "sibling_links s xs \<longleftrightarrow>
     (\<forall>i<length xs. nextSibling (heap s (xs ! i))
          = (if Suc i < length xs then Some (xs ! Suc i) else None))"
proof (induction s xs rule: sibling_links.induct)
  case (1 s)
  then show ?case by simp
next
  case (2 s x)
  then show ?case by simp
next
  case (3 s x y ys)
  let ?P = "\<lambda>zs i. nextSibling (heap s (zs ! i))
                   = (if Suc i < length zs then Some (zs ! Suc i) else None)"
  have step: "?P (x # y # ys) (Suc i) = ?P (y # ys) i" for i
    by simp
  have zero: "?P (x # y # ys) 0 = (nextSibling (heap s x) = Some y)"
    by simp
  have "(\<forall>i<length (x # y # ys). ?P (x # y # ys) i)
      \<longleftrightarrow> ?P (x # y # ys) 0 \<and> (\<forall>i<length (y # ys). ?P (x # y # ys) (Suc i))"
    using All_less_Suc2[of "length (y # ys)" "?P (x # y # ys)"] by simp
  then have "(\<forall>i<length (x # y # ys). ?P (x # y # ys) i)
      \<longleftrightarrow> nextSibling (heap s x) = Some y \<and> (\<forall>i<length (y # ys). ?P (y # ys) i)"
    unfolding step zero .
  then show ?case
    using 3 by simp
qed

lemma sibling_links_neq:
  assumes "sibling_links s xs"
  shows "j < length xs \<Longrightarrow> i < j \<Longrightarrow> xs ! i \<noteq> xs ! j"
proof (induction "length xs - j" arbitrary: i j)
  case 0
  then show ?case by simp
next
  case (Suc d)
  note links = assms[unfolded sibling_links_nth, rule_format]
  show ?case
  proof
    assume eq: "xs ! i = xs ! j"
    have i: "i < length xs" "Suc i < length xs" using Suc.prems by auto
    from links[OF i(1)] i(2) have ni: "nextSibling (heap s (xs ! i)) = Some (xs ! Suc i)" by simp
    show False
    proof (cases "Suc j < length xs")
      case True
      from links[OF Suc.prems(1)] True have "nextSibling (heap s (xs ! j)) = Some (xs ! Suc j)"
        by simp
      with ni eq have e: "xs ! Suc i = xs ! Suc j" by simp
      have "d = length xs - Suc j" using Suc.hyps(2) by simp
      from Suc.hyps(1)[OF this True, of "Suc i"] Suc.prems e show False by simp
    next
      case False
      from links[OF Suc.prems(1)] False have "nextSibling (heap s (xs ! j)) = None" by simp
      with ni eq show False by simp
    qed
  qed
qed



lemma nth_without:
  "k < length cs \<Longrightarrow> i < length cs - 1 \<Longrightarrow>
   (take k cs @ drop (Suc k) cs) ! i = (if i < k then cs ! i else cs ! Suc i)"
  by (simp add: nth_append min_def)

lemma sibling_links_without:
  assumes links: "sibling_links s cs" and k: "k < length cs"
    and nxt: "\<And>x. nextSibling (heap s' x) =
              (if x = cs ! k then None
               else if 0 < k \<and> x = cs ! (k - 1) then nextSibling (heap s (cs ! k))
               else nextSibling (heap s x))"
  shows "sibling_links s' (take k cs @ drop (Suc k) cs)"
proof -
  let ?L = "take k cs @ drop (Suc k) cs"
  note old = links[unfolded sibling_links_nth, rule_format]
  note neq = sibling_links_neq[OF links]
  have len: "length ?L = length cs - 1" using k by simp
  have "nextSibling (heap s' (?L ! i)) = (if Suc i < length ?L then Some (?L ! Suc i) else None)"
    if i: "i < length ?L" for i
  proof -
    from i len have i': "i < length cs - 1" by simp
    consider "Suc i < k" | "Suc i = k" | "k \<le> i" by linarith
    then show ?thesis
    proof cases
      case 1
      then have a: "?L ! i = cs ! i" "?L ! Suc i = cs ! Suc i" "Suc i < length ?L"
        using k i' len by (simp_all add: nth_without)
      have "cs ! i \<noteq> cs ! k" "cs ! i \<noteq> cs ! (k - 1)"
        using neq[of k i] neq[of "k - 1" i] 1 k by simp_all
      then have "nextSibling (heap s' (cs ! i)) = nextSibling (heap s (cs ! i))"
        by (simp add: nxt)
      also have "\<dots> = Some (cs ! Suc i)"
        using old[of i] 1 k by simp
      finally show ?thesis using a by simp
    next
      case 2
      then have a: "?L ! i = cs ! (k - 1)" "0 < k"
        using k i' by (auto simp add: nth_without)
      have b: "Suc i < length ?L \<Longrightarrow> ?L ! Suc i = cs ! Suc k"
        using 2 k len by (simp add: nth_without)
      have c: "Suc i < length ?L \<longleftrightarrow> Suc k < length cs"
        using 2 len by auto
      have "cs ! (k - 1) \<noteq> cs ! k"
        using neq[of k "k - 1"] a(2) k by simp
      then have "nextSibling (heap s' (cs ! (k - 1))) = nextSibling (heap s (cs ! k))"
        using a(2) by (simp add: nxt)
      also have "\<dots> = (if Suc k < length cs then Some (cs ! Suc k) else None)"
        using old[OF k] .
      finally show ?thesis using a b c by simp
    next
      case 3
      then have a: "?L ! i = cs ! Suc i"
        using k i' by (simp add: nth_without)
      have b: "Suc i < length ?L \<Longrightarrow> ?L ! Suc i = cs ! Suc (Suc i)"
        using 3 k len by (simp add: nth_without)
      have c: "Suc i < length ?L \<longleftrightarrow> Suc (Suc i) < length cs"
        using len by auto
      have si: "Suc i < length cs" using i' by simp
      have "cs ! Suc i \<noteq> cs ! k" "0 < k \<Longrightarrow> cs ! Suc i \<noteq> cs ! (k - 1)"
        using neq[of "Suc i" k] neq[of "Suc i" "k - 1"] 3 si by (simp_all add: neq_commute)
      then have "nextSibling (heap s' (cs ! Suc i)) = nextSibling (heap s (cs ! Suc i))"
        by (auto simp add: nxt)
      also have "\<dots> = (if Suc (Suc i) < length cs then Some (cs ! Suc (Suc i)) else None)"
        using old[OF si] .
      finally show ?thesis using a b c by simp
    qed
  qed
  then show ?thesis
    unfolding sibling_links_nth by blast
qed

lemma nth_with:
  "k \<le> length cs \<Longrightarrow> i \<le> length cs \<Longrightarrow>
   (take k cs @ c # drop k cs) ! i = (if i < k then cs ! i else if i = k then c else cs ! (i - 1))"
  by (auto simp add: nth_append min_def nth_Cons')

lemma sibling_links_with:
  assumes links: "sibling_links s cs" and k: "k \<le> length cs" and c: "c \<notin> set cs"
    and nxt: "\<And>x. nextSibling (heap s' x) =
              (if x = c then (if k < length cs then Some (cs ! k) else None)
               else if 0 < k \<and> x = cs ! (k - 1) then Some c
               else nextSibling (heap s x))"
  shows "sibling_links s' (take k cs @ c # drop k cs)"
proof -
  let ?L = "take k cs @ c # drop k cs"
  note old = links[unfolded sibling_links_nth, rule_format]
  note neq = sibling_links_neq[OF links]
  have len: "length ?L = Suc (length cs)" using k by simp
  have cneq: "j < length cs \<Longrightarrow> cs ! j \<noteq> c" for j
    using c by (metis nth_mem)
  have "nextSibling (heap s' (?L ! i)) = (if Suc i < length ?L then Some (?L ! Suc i) else None)"
    if i: "i < length ?L" for i
  proof -
    from i len have i': "i \<le> length cs" by simp
    consider "Suc i < k" | "Suc i = k" | "i = k" | "k < i" by linarith
    then show ?thesis
    proof cases
      case 1
      then have a: "?L ! i = cs ! i" "?L ! Suc i = cs ! Suc i" "Suc i < length ?L"
        using k i' len by (simp_all add: nth_with)
      have "cs ! i \<noteq> c" "cs ! i \<noteq> cs ! (k - 1)"
        using neq[of "k - 1" i] cneq[of i] 1 k by simp_all
      then have "nextSibling (heap s' (cs ! i)) = nextSibling (heap s (cs ! i))"
        by (simp add: nxt)
      also have "\<dots> = Some (cs ! Suc i)"
        using old[of i] 1 k by simp
      finally show ?thesis using a by simp
    next
      case 2
      then have a: "?L ! i = cs ! (k - 1)" "0 < k" "?L ! Suc i = c" "Suc i < length ?L"
        using k i' len by (auto simp add: nth_with)
      have "cs ! (k - 1) \<noteq> c"
        using cneq[of "k - 1"] a(2) k by simp
      then have "nextSibling (heap s' (cs ! (k - 1))) = Some c"
        using a(2) by (simp add: nxt)
      then show ?thesis using a by simp
    next
      case 3
      then have a: "?L ! i = c"
        using k by (simp add: nth_with)
      have b: "Suc i < length ?L \<Longrightarrow> ?L ! Suc i = cs ! k"
        using 3 k len by (simp add: nth_with)
      have d: "Suc i < length ?L \<longleftrightarrow> k < length cs"
        using 3 len by auto
      show ?thesis using a b d by (simp add: nxt)
    next
      case 4
      then have a: "?L ! i = cs ! (i - 1)"
        using k i' by (simp add: nth_with)
      have b: "Suc i < length ?L \<Longrightarrow> ?L ! Suc i = cs ! i"
        using 4 k len by (simp add: nth_with)
      have d: "Suc i < length ?L \<longleftrightarrow> i < length cs"
        using len by auto
      have si: "i - 1 < length cs" "Suc (i - 1) = i" using i' 4 by simp_all
      have "cs ! (i - 1) \<noteq> c" "0 < k \<Longrightarrow> cs ! (i - 1) \<noteq> cs ! (k - 1)"
        using cneq[OF si(1)] neq[of "i - 1" "k - 1"] 4 si by (simp_all add: neq_commute)
      then have "nextSibling (heap s' (cs ! (i - 1))) = nextSibling (heap s (cs ! (i - 1)))"
        by (auto simp add: nxt)
      also have "\<dots> = (if i < length cs then Some (cs ! i) else None)"
        using old[OF si(1)] si(2) by simp
      finally show ?thesis using a b d by simp
    qed
  qed
  then show ?thesis
    unfolding sibling_links_nth by blast
qed

subsection \<open>The mutations and the sibling-link invariant\<close>

lemma appendChild_success_nontext:
  "appendChild (Some p) (Some c) s = (Inr u, s') \<Longrightarrow> isTextNode (heap s p) = Inr False"
  by (auto simp add: appendChild_def split: sum.splits bool.splits)

lemma insertChild_success_nontext:
  "insertChild (Some p) (Some c) i s = (Inr u, s') \<Longrightarrow> isTextNode (heap s p) = Inr False"
  by (auto simp add: insertChild_def split: sum.splits bool.splits)

lemma insertChild_index_effect:
  assumes nt: "isTextNode (heap s p) = Inr False" and k: "k < length (children s p)"
  shows "\<exists>s'. insertChild (Some p) (Some c) (int k) s = (Inr (), s')
     \<and> children s' p = take k (children s p) @ c # drop k (children s p)
     \<and> (\<forall>x. nextSibling (heap s' x) =
              (if 0 < k \<and> x = children s p ! (k - 1) then Some c
               else if x = c then Some (children s p ! k)
               else nextSibling (heap s x)))
     \<and> (\<forall>x. parentNode (heap s' x) = (if x = c then Some p else parentNode (heap s x)))
     \<and> (\<forall>x. x \<noteq> p \<longrightarrow> childNodes (heap s' x) = childNodes (heap s x))
     \<and> (\<forall>x. isTextNode (heap s' x) = isTextNode (heap s x))
     \<and> fresh s' = fresh s"
proof -
  from k have ne: "children s p \<noteq> []" by auto
  note cs = children_Some[OF ne]
  have i: "nat (int k - 1) = k - 1" "(0 < int k) = (0 < k)" "(int k - 1 < int (length (children s p)))"
    "0 < k \<Longrightarrow> 0 \<le> int k - 1" "min k (length (children s p)) = k"
    using k by auto
  show ?thesis using nt k cs ne i
    by (auto simp add: insertChild_def splice_insert_def Let_def js_index_def splice_start_def
        simp del: of_nat_less_0_iff)
qed


lemma appendChild_keeps_links:
  assumes inv: "sibling_invariant s p" and c: "c \<notin> set (children s p)"
    and ok: "appendChild (Some p) (Some c) s = (Inr (), s')"
  shows "sibling_invariant s' p"
proof -
  let ?cs = "children s p"
  from appendChild_effect[OF appendChild_success_nontext[OF ok], of c] ok
  have ch: "children s' p = ?cs @ [c]"
    and nx: "\<And>x. nextSibling (heap s' x) =
              (if x = c then None
               else if ?cs \<noteq> [] \<and> x = last ?cs then Some c
               else nextSibling (heap s x))"
    by auto
  have "sibling_links s' (take (length ?cs) ?cs @ c # drop (length ?cs) ?cs)"
  proof (rule sibling_links_with[where s = s])
    show "sibling_links s ?cs" using inv by (simp add: sibling_invariant_def)
    show "length ?cs \<le> length ?cs" by simp
    show "c \<notin> set ?cs" by (rule c)
    show "nextSibling (heap s' x) =
              (if x = c then (if length ?cs < length ?cs then Some (?cs ! length ?cs) else None)
               else if 0 < length ?cs \<and> x = ?cs ! (length ?cs - 1) then Some c
               else nextSibling (heap s x))" for x
      by (simp add: nx last_conv_nth)
  qed
  then show ?thesis
    by (simp add: sibling_invariant_def ch)
qed

lemma insertChild_keeps_links:
  assumes inv: "sibling_invariant s p" and c: "c \<notin> set (children s p)" and i: "0 \<le> i"
    and ok: "insertChild (Some p) (Some c) i s = (Inr (), s')"
  shows "sibling_invariant s' p"
proof -
  let ?cs = "children s p"
  note nt = insertChild_success_nontext[OF ok]
  consider "i = int (length ?cs)" | "int (length ?cs) < i" | "i < int (length ?cs)"
    by linarith
  then show ?thesis
  proof cases
    case 1
    with ok have "appendChild (Some p) (Some c) s = (Inr (), s')"
      by (simp add: insertChild_at_count)
    with inv c show ?thesis by (rule appendChild_keeps_links)
  next
    case 2
    with ok insertChild_beyond_count[OF nt 2, of c] show ?thesis by simp
  next
    case 3
    define k where "k = nat i"
    have k: "i = int k" "k < length ?cs"
      using i 3 by (simp_all add: k_def)
    from insertChild_index_effect[OF nt k(2), of c] ok k(1)
    have ch: "children s' p = take k ?cs @ c # drop k ?cs"
      and nx: "\<And>x. nextSibling (heap s' x) =
              (if 0 < k \<and> x = ?cs ! (k - 1) then Some c
               else if x = c then Some (?cs ! k)
               else nextSibling (heap s x))"
      by auto
    have "k - 1 < length ?cs"
      using k(2) by simp
    then have "?cs ! (k - 1) \<in> set ?cs"
      by (rule nth_mem)
    with c have pre: "?cs ! (k - 1) \<noteq> c"
      by auto
    have "sibling_links s' (take k ?cs @ c # drop k ?cs)"
    proof (rule sibling_links_with[where s = s])
      show "sibling_links s ?cs" using inv by (simp add: sibling_invariant_def)
      show "k \<le> length ?cs" using k(2) by simp
      show "c \<notin> set ?cs" by (rule c)
      show "nextSibling (heap s' x) =
              (if x = c then (if k < length ?cs then Some (?cs ! k) else None)
               else if 0 < k \<and> x = ?cs ! (k - 1) then Some c
               else nextSibling (heap s x))" for x
        using pre k(2) by (auto simp add: nx)
    qed
    then show ?thesis
      by (simp add: sibling_invariant_def ch)
  qed
qed

lemma removeChild_keeps_links:
  assumes inv: "sibling_invariant s p"
    and ok: "removeChild (Some p) coi s = (Inr r, s')"
  shows "sibling_invariant s' p"
proof -
  let ?cs = "children s p"
  from removeChild_success_cases[OF ok] obtain k where
    k: "k < length ?cs" "r = ?cs ! k" "removeChild (Some p) (ChildIndex (int k)) s = (Inr r, s')"
    by blast
  from removeChild_index_effect[OF k(1)] k(3)
  have ch: "children s' p = take k ?cs @ drop (Suc k) ?cs"
    and nx: "\<And>x. nextSibling (heap s' x) =
              (if x = ?cs ! k then None
               else if 0 < k \<and> x = ?cs ! (k - 1) then nextSibling (heap s (?cs ! k))
               else nextSibling (heap s x))"
    by auto
  have "sibling_links s' (take k ?cs @ drop (Suc k) ?cs)"
    using inv k(1) nx by (intro sibling_links_without[where s = s]) (simp_all add: sibling_invariant_def)
  then show ?thesis
    by (simp add: sibling_invariant_def ch)
qed

text \<open>
  What holds of claim C3. Let the child sequence of \<open>p\<close> satisfy the sibling-link invariant.
  A successful \<open>appendChild(p, c)\<close>, and a successful \<open>insertChild(p, c, i)\<close> with
  \<open>0 \<le> i\<close>, re-establish it for \<open>p\<close> when \<open>c\<close> is not already among the children of \<open>p\<close>;
  a successful \<open>removeChild\<close> on \<open>p\<close>, by index or by node, always re-establishes it.
\<close>

theorem mutations_keep_sibling_invariant:
  assumes "sibling_invariant s p"
  shows "(c \<notin> set (children s p) \<and> appendChild (Some p) (Some c) s = (Inr (), s1)
            \<longrightarrow> sibling_invariant s1 p)
       \<and> (c \<notin> set (children s p) \<and> 0 \<le> i \<and> insertChild (Some p) (Some c) i s = (Inr (), s2)
            \<longrightarrow> sibling_invariant s2 p)
       \<and> (removeChild (Some p) coi s = (Inr r, s3) \<longrightarrow> sibling_invariant s3 p)"
proof (intro conjI impI)
  assume "c \<notin> set (children s p) \<and> appendChild (Some p) (Some c) s = (Inr (), s1)"
  with assms show "sibling_invariant s1 p"
    using appendChild_keeps_links[of s p c s1] by simp
next
  assume "c \<notin> set (children s p) \<and> 0 \<le> i \<and> insertChild (Some p) (Some c) i s = (Inr (), s2)"
  with assms show "sibling_invariant s2 p"
    using insertChild_keeps_links[of s p c i s2] by simp
next
  assume "removeChild (Some p) coi s = (Inr r, s3)"
  with assms show "sibling_invariant s3 p"
    by (rule removeChild_keeps_links)
qed


lemma scenario_nontext: "isTextNode (heap scenario_store 0) = Inr False"
  by (simp add: scenario_store_def isTextNode_def createGeneralNode_def TEXT_NODE_NAME_def)

lemma scenario_links: "sibling_invariant scenario_store 0"
  by (simp add: sibling_invariant_def scenario_children)
     (simp add: scenario_store_def createGeneralNode_def createTextNode_def)

theorem mutations_keep_sibling_invariant_witness:
  "sibling_invariant scenario_store 0
   \<and> 5 \<notin> set (children scenario_store 0)
   \<and> fst (appendChild (Some 0) (Some 5) scenario_store) = Inr ()
   \<and> sibling_invariant (snd (appendChild (Some 0) (Some 5) scenario_store)) 0
   \<and> fst (insertChild (Some 0) (Some 5) 1 scenario_store) = Inr ()
   \<and> sibling_invariant (snd (insertChild (Some 0) (Some 5) 1 scenario_store)) 0
   \<and> fst (removeChild (Some 0) (ChildIndex 1) scenario_store) = Inr 2
   \<and> sibling_invariant (snd (removeChild (Some 0) (ChildIndex 1) scenario_store)) 0"
proof -
  have a: "fst (appendChild (Some 0) (Some 5) scenario_store) = Inr ()"
    using appendChild_effect[OF scenario_nontext, of 5] by auto
  have b: "fst (insertChild (Some 0) (Some 5) 1 scenario_store) = Inr ()"
    using insertChild_index_effect[OF scenario_nontext, of 1 5] by (auto simp: scenario_children)
  have c: "fst (removeChild (Some 0) (ChildIndex 1) scenario_store) = Inr 2"
    using removeChild_index_eq[of 1 scenario_store 0] by (simp add: scenario_children)
  have d: "5 \<notin> set (children scenario_store 0)"
    by (simp add: scenario_children)
  from a b c have e:
    "appendChild (Some 0) (Some 5) scenario_store
       = (Inr (), snd (appendChild (Some 0) (Some 5) scenario_store))"
    "insertChild (Some 0) (Some 5) 1 scenario_store
       = (Inr (), snd (insertChild (Some 0) (Some 5) 1 scenario_store))"
    "removeChild (Some 0) (ChildIndex 1) scenario_store
       = (Inr 2, snd (removeChild (Some 0) (ChildIndex 1) scenario_store))"
    by (metis prod.collapse)+
  show ?thesis
    using mutations_keep_sibling_invariant [OF scenario_links,
        of 5 "snd (appendChild (Some 0) (Some 5) scenario_store)" 1
           "snd (insertChild (Some 0) (Some 5) 1 scenario_store)" "ChildIndex 1" 2
           "snd (removeChild (Some 0) (ChildIndex 1) scenario_store)"]
      scenario_links a b c d e
    by simp
qed

text \<open>
  Claim C3 as stated fails: the source never detaches a child before attaching it. In the
  scenario tree the children of node 0 are 1, 2, 3 and the invariant holds; appending
  node 1, which is already the first child, succeeds and leaves the sequence 1, 2, 3, 1
  with the \<open>nextSibling\<close> of node 1 cleared, so that the first child no longer points
  at the second.
\<close>

theorem appendChild_attached_child_counterexample:
  "sibling_invariant scenario_store 0
   \<and> fst (appendChild (Some 0) (Some 1) scenario_store) = Inr ()
   \<and> \<not> sibling_invariant (snd (appendChild (Some 0) (Some 1) scenario_store)) 0"
proof -
  from appendChild_effect[OF scenario_nontext, of 1] obtain s' where
    s': "appendChild (Some 0) (Some 1) scenario_store = (Inr (), s')"
      "children s' 0 = children scenario_store 0 @ [1]"
      "nextSibling (heap s' 1) = None"
    by auto
  have "\<not> sibling_invariant s' 0"
    using s'(2,3) by (simp add: sibling_invariant_def scenario_children)
  with s'(1) scenario_links show ?thesis
    by simp
qed

subsection \<open>Removing the siblings between two nodes\<close>

lemma removeSiblings_loop_done:
  "removeSiblings_loop n (Some to) to removed s = Some (Inr removed, s)"
  by (cases n) simp_all

text \<open>
  Claim C9. \<open>removeSiblings(from, to)\<close> returns the empty sequence and the store it was
  given, whatever the bound on the loop, when \<open>from\<close> and \<open>to\<close> are the same node and
  when \<open>to\<close> is the \<open>nextSibling\<close> of \<open>from\<close>.
\<close>

theorem removeSiblings_same_or_adjacent:
  "removeSiblings n from from s = Some (Inr [], s)
   \<and> (nextSibling (heap s from) = Some to \<longrightarrow> removeSiblings n from to s = Some (Inr [], s))"
proof -
  have same: "removeSiblings n from from s = Some (Inr [], s)"
    by (simp add: removeSiblings_def)
  have "removeSiblings n from to s = Some (Inr [], s)"
    if adjacent: "nextSibling (heap s from) = Some to"
  proof (cases "from = to")
    case True
    with same show ?thesis by simp
  next
    case False
    then have "removeSiblings n from to s = removeSiblings_loop n (Some to) to [] s"
      using adjacent by (simp add: removeSiblings_def)
    then show ?thesis
      by (simp add: removeSiblings_loop_done)
  qed
  with same show ?thesis
    by blast
qed

theorem removeSiblings_same_or_adjacent_witness:
  "nextSibling (heap scenario_store 1) = Some 2
   \<and> removeSiblings 0 1 2 scenario_store = Some (Inr [], scenario_store)
   \<and> removeSiblings 0 1 1 scenario_store = Some (Inr [], scenario_store)"
proof -
  have "nextSibling (heap scenario_store 1) = Some 2"
    by (simp add: scenario_store_def createTextNode_def)
  then show ?thesis
    using removeSiblings_same_or_adjacent [of 0 1 scenario_store 2]
    by simp
qed

subsection \<open>Detaching a child and moving it to another node\<close>

lemma parent_invariant_nth:
  "parent_invariant s p \<Longrightarrow> k < length (children s p) \<Longrightarrow>
   parentNode (heap s (children s p ! k)) = Some p"
  by (simp add: parent_invariant_def list_all_length)

lemma remove_nth_child:
  assumes k: "k < length (children s p)" and d: "distinct (children s p)"
    and par: "parentNode (heap s (children s p ! k)) = Some p"
  shows "\<exists>s'. remove (Some (children s p ! k)) s = (Inr (), s')
     \<and> children s' p = take k (children s p) @ drop (Suc k) (children s p)
     \<and> (\<forall>x. nextSibling (heap s' x) =
              (if x = children s p ! k then None
               else if 0 < k \<and> x = children s p ! (k - 1) then nextSibling (heap s (children s p ! k))
               else nextSibling (heap s x)))
     \<and> (\<forall>x. parentNode (heap s' x) = (if x = children s p ! k then None else parentNode (heap s x)))
     \<and> (\<forall>x. x \<noteq> p \<longrightarrow> childNodes (heap s' x) = childNodes (heap s x))
     \<and> (\<forall>x. isTextNode (heap s' x) = isTextNode (heap s x))
     \<and> fresh s' = fresh s
     \<and> childNodes (heap s' p) \<noteq> None"
proof -
  have cin: "children s p ! k \<in> set (children s p)" using k by simp
  have "removeChild (Some p) (ChildNode (children s p ! k)) s
          = removeChild (Some p) (ChildIndex (int k)) s"
    using removeChild_node_eq[OF cin] indexOf_distinct[OF d k] by simp
  then have "remove (Some (children s p ! k)) s =
      (case removeChild (Some p) (ChildIndex (int k)) s of
         (Inl e, s') \<Rightarrow> (Inl e, s') | (Inr _, s') \<Rightarrow> (Inr (), s'))"
    using par by (simp add: remove_def)
  moreover from removeChild_index_effect[OF k] obtain s' where
    s': "removeChild (Some p) (ChildIndex (int k)) s = (Inr (children s p ! k), s')"
    and eff: "children s' p = take k (children s p) @ drop (Suc k) (children s p)
     \<and> (\<forall>x. nextSibling (heap s' x) =
              (if x = children s p ! k then None
               else if 0 < k \<and> x = children s p ! (k - 1) then nextSibling (heap s (children s p ! k))
               else nextSibling (heap s x)))
     \<and> (\<forall>x. parentNode (heap s' x) = (if x = children s p ! k then None else parentNode (heap s x)))
     \<and> (\<forall>x. x \<noteq> p \<longrightarrow> childNodes (heap s' x) = childNodes (heap s x))
     \<and> (\<forall>x. isTextNode (heap s' x) = isTextNode (heap s x))
     \<and> fresh s' = fresh s"
    by blast
  ultimately have "remove (Some (children s p ! k)) s = (Inr (), s')"
    by simp
  moreover have "childNodes (heap s' p) \<noteq> None"
    using s' unfolding removeChild_index_eq[OF k] by auto
  ultimately show ?thesis
    using eff by blast
qed

text \<open>One round of either loop of \<open>splitByChild\<close>: the child at position \<open>k\<close> of the root
  is detached and appended to the clone.\<close>

lemma move_child:
  assumes k: "k < length (children s root)" and d: "distinct (children s root)"
    and par: "parent_invariant s root"
    and nt: "isTextNode (heap s clone) = Inr False" and ne: "clone \<noteq> root"
  shows "\<exists>s1 s2. remove (Some (children s root ! k)) s = (Inr (), s1)
     \<and> appendChild (Some clone) (Some (children s root ! k)) s1 = (Inr (), s2)
     \<and> children s2 root = take k (children s root) @ drop (Suc k) (children s root)
     \<and> children s2 clone = children s clone @ [children s root ! k]
     \<and> parent_invariant s2 root
     \<and> (parent_invariant s clone \<longrightarrow> parent_invariant s2 clone)
     \<and> isTextNode (heap s2 clone) = Inr False
     \<and> childNodes (heap s2 root) \<noteq> None
     \<and> fresh s2 = fresh s"
proof -
  let ?cs = "children s root"
  let ?c = "?cs ! k"
  from remove_nth_child[OF k d parent_invariant_nth[OF par k]] obtain s1 where
    s1: "remove (Some ?c) s = (Inr (), s1)"
      "children s1 root = take k ?cs @ drop (Suc k) ?cs"
      "\<And>x. parentNode (heap s1 x) = (if x = ?c then None else parentNode (heap s x))"
      "\<And>x. x \<noteq> root \<Longrightarrow> childNodes (heap s1 x) = childNodes (heap s x)"
      "\<And>x. isTextNode (heap s1 x) = isTextNode (heap s x)"
      "fresh s1 = fresh s"
      "childNodes (heap s1 root) \<noteq> None"
    by blast
  have nt1: "isTextNode (heap s1 clone) = Inr False" using s1(5) nt by simp
  from appendChild_effect[OF nt1, of ?c] obtain s2 where
    s2: "appendChild (Some clone) (Some ?c) s1 = (Inr (), s2)"
      "children s2 clone = children s1 clone @ [?c]"
      "\<And>x. parentNode (heap s2 x) = (if x = ?c then Some clone else parentNode (heap s1 x))"
      "\<And>x. x \<noteq> clone \<Longrightarrow> childNodes (heap s2 x) = childNodes (heap s1 x)"
      "\<And>x. isTextNode (heap s2 x) = isTextNode (heap s1 x)"
      "fresh s2 = fresh s1"
    by blast
  have c1: "children s1 clone = children s clone"
    using s1(4)[OF ne] by (simp add: children_def)
  have r2: "children s2 root = take k ?cs @ drop (Suc k) ?cs"
    using s2(4)[of root] ne s1(2) by (simp add: children_def)
  have notin: "?c \<notin> set (take k ?cs @ drop (Suc k) ?cs)"
  proof -
    have "distinct (take k ?cs @ ?c # drop (Suc k) ?cs)"
      using d id_take_nth_drop[OF k] by simp
    then show ?thesis by auto
  qed
  have p2: "parent_invariant s2 root"
    unfolding parent_invariant_def r2 list_all_iff
  proof
    fix x assume x: "x \<in> set (take k ?cs @ drop (Suc k) ?cs)"
    with notin have "x \<noteq> ?c" by auto
    moreover from x have "x \<in> set ?cs"
      by (auto dest: in_set_takeD in_set_dropD)
    then have "parentNode (heap s x) = Some root"
      using par by (simp add: parent_invariant_def list_all_iff)
    ultimately show "parentNode (heap s2 x) = Some root"
      by (simp add: s2(3) s1(3))
  qed
  have pc: "parent_invariant s clone \<longrightarrow> parent_invariant s2 clone"
    unfolding parent_invariant_def s2(2) c1 list_all_iff
    by (auto simp add: s2(3) s1(3))
  have cn: "childNodes (heap s2 root) \<noteq> None"
    using s2(4)[of root] ne s1(7) by simp
  show ?thesis
    using s1(1) s2(1) r2 s2(2) c1 p2 pc s2(5) nt1 s2(6) s1(6) cn by simp
qed

subsection \<open>The loops of splitByChild\<close>

lemma split_before_loop_all:
  assumes "distinct (children s root)" "parent_invariant s root"
    "isTextNode (heap s clone) = Inr False" "clone \<noteq> root"
    "childNodes (heap s root) \<noteq> None" "length (children s root) < n"
  shows "\<exists>s'. split_before_loop n None root clone s
                 = Some (Inl (MissingArgumentError ''node''), s')
     \<and> children s' root = []
     \<and> children s' clone = children s clone @ children s root
     \<and> (parent_invariant s clone \<longrightarrow> parent_invariant s' clone)
     \<and> fresh s' = fresh s"
  using assms
proof (induction n arbitrary: s)
  case 0
  then show ?case by simp
next
  case (Suc m)
  let ?cs = "children s root"
  from Suc.prems(5) have cn: "childNodes (heap s root) = Some ?cs"
    by (auto simp add: children_def)
  show ?case
  proof (cases "?cs = []")
    case True
    then show ?thesis
      using cn by (simp add: js_index_def remove_def)
  next
    case False
    then have k: "0 < length ?cs" by simp
    from move_child[OF k Suc.prems(1,2,3,4)] obtain s1 s2 where
      mv: "remove (Some (?cs ! 0)) s = (Inr (), s1)"
        "appendChild (Some clone) (Some (?cs ! 0)) s1 = (Inr (), s2)"
        "children s2 root = take 0 ?cs @ drop (Suc 0) ?cs"
        "children s2 clone = children s clone @ [?cs ! 0]"
        "parent_invariant s2 root"
        "parent_invariant s clone \<longrightarrow> parent_invariant s2 clone"
        "isTextNode (heap s2 clone) = Inr False"
        "childNodes (heap s2 root) \<noteq> None"
        "fresh s2 = fresh s"
      by blast
    have r2: "children s2 root = tl ?cs"
      using mv(3) by (simp add: drop_Suc)
    have d2: "distinct (children s2 root)"
      using Suc.prems(1) r2 by (simp add: distinct_tl)
    have l2: "length (children s2 root) < m"
      using Suc.prems(6) r2 False by (cases "children s root") simp_all
    from Suc.IH[OF d2 mv(5) mv(7) Suc.prems(4) mv(8) l2] obtain s' where
      s': "split_before_loop m None root clone s2 = Some (Inl (MissingArgumentError ''node''), s')"
        "children s' root = []"
        "children s' clone = children s2 clone @ children s2 root"
        "parent_invariant s2 clone \<longrightarrow> parent_invariant s' clone"
        "fresh s' = fresh s2"
      by blast
    have step: "split_before_loop (Suc m) None root clone s = split_before_loop m None root clone s2"
      using cn k mv(1,2) by (simp add: js_index_def)
    have "children s' clone = children s clone @ ?cs"
      using s'(3) mv(4) r2 False by (simp add: hd_conv_nth[symmetric])
    then show ?thesis
      using step s' mv(6,9) by simp
  qed
qed

subsection \<open>The bound on the path loop\<close>

text \<open>Once \<open>getDescendantPath\<close> returns within a bound, it returns the same with every
  larger bound.\<close>

lemma getDescendantPath_loop_more:
  "getDescendantPath_loop n s root node path = Some r \<Longrightarrow>
   getDescendantPath_loop (n + m) s root node path = Some r"
proof (induction n arbitrary: node path)
  case 0
  then show ?case by (cases m) (simp_all split: if_splits)
next
  case (Suc n)
  then show ?case
    by (auto split: if_splits option.splits)
qed

lemma getDescendantPath_more:
  "getDescendantPath n s root node = Some r \<Longrightarrow> getDescendantPath (n + m) s root node = Some r"
  by (auto simp add: getDescendantPath_def split: option.splits sum.splits
      dest: getDescendantPath_loop_more[where m = m])

subsection \<open>The path to a descendant\<close>

text \<open>For a descendant given by its chain of ancestors, \<open>getDescendantPath\<close> returns the
  positions along the chain from the root downwards; the first of them is the position of
  the top-level ancestor among the children of the root.\<close>

lemma getDescendantPath_loop_chain:
  "parent_chain s root node ps \<Longrightarrow> length ps \<le> n \<Longrightarrow>
   getDescendantPath_loop n s root node path = Some (Inr (path @ chain_indices s node ps))"
proof (induction ps arbitrary: node path n)
  case Nil
  then show ?case by (cases n) simp_all
next
  case (Cons p ps)
  from Cons.prems(2) obtain m where n: "n = Suc m" "length ps \<le> m"
    by (cases n) simp_all
  from Cons.prems(1) have a: "node \<noteq> root" "parentNode (heap s node) = Some p"
    "node \<in> set (children s p)" "parent_chain s root p ps"
    by simp_all
  from a(3) have "children s p \<noteq> []" by auto
  then have cn: "childNodes (heap s p) = Some (children s p)" by (rule children_Some)
  from Cons.IH[OF a(4) n(2), of "path @ [indexOf (children s p) node]"]
  show ?case
    using a(1,2) cn n(1) by simp
qed

lemma getDescendantPath_chain:
  "parent_chain s root node ps \<Longrightarrow> length ps \<le> n \<Longrightarrow>
   getDescendantPath n s root node = Some (Inr (rev (chain_indices s node ps)))"
  using getDescendantPath_loop_chain[of s root node ps n "[]"]
  by (simp add: getDescendantPath_def)

lemma chain_indices_last:
  "parent_chain s root node ps \<Longrightarrow> ps \<noteq> [] \<Longrightarrow>
   \<exists>rest. rev (chain_indices s node ps)
             = indexOf (children s root) (top_ancestor node ps) # rest"
proof (induction ps arbitrary: node)
  case Nil
  then show ?case by simp
next
  case (Cons p ps)
  show ?case
  proof (cases ps)
    case Nil
    with Cons.prems have "p = root" by simp
    with Nil show ?thesis by (simp add: top_ancestor_def)
  next
    case (Cons q qs)
    from Cons.prems have "parent_chain s root p ps" by simp
    from Cons.IH[OF this] Cons obtain rest where
      "rev (chain_indices s p ps) = indexOf (children s root) (top_ancestor p ps) # rest"
      by auto
    moreover have "top_ancestor node (p # ps) = top_ancestor p ps"
      using Cons by (simp add: top_ancestor_def)
    ultimately show ?thesis by simp
  qed
qed

lemma getDescendantPath_top:
  assumes "parent_chain s root node ps" and "ps \<noteq> []" and "length ps \<le> n"
    and "distinct (children s root)" and "k < length (children s root)"
    and "children s root ! k = top_ancestor node ps"
  shows "\<exists>rest. getDescendantPath n s root node = Some (Inr (int k # rest))"
proof -
  from chain_indices_last[OF assms(1,2)] obtain rest where
    "rev (chain_indices s node ps) = indexOf (children s root) (top_ancestor node ps) # rest"
    by blast
  moreover have "indexOf (children s root) (top_ancestor node ps) = int k"
    using indexOf_distinct[OF assms(4,5)] assms(6) by simp
  ultimately show ?thesis
    using getDescendantPath_chain[OF assms(1,3)] by simp
qed

subsection \<open>The mutations write links only\<close>

lemma scalars_set [simp]:
  "scalars (n\<lparr>parentNode := v\<rparr>) = scalars n"
  "scalars (n\<lparr>nextSibling := v\<rparr>) = scalars n"
  "scalars (n\<lparr>childNodes := w\<rparr>) = scalars n"
  by (simp_all add: scalars_def)

lemma scalars_heap_set [simp]:
  "scalars (heap (set_parentNode r v s) x) = scalars (heap s x)"
  "scalars (heap (set_nextSibling r v s) x) = scalars (heap s x)"
  "scalars (heap (set_childNodes r w s) x) = scalars (heap s x)"
  by simp_all

lemma appendChild_scalars:
  "appendChild parent child s = (res, s') \<Longrightarrow> scalars (heap s' x) = scalars (heap s x)"
  by (auto simp add: appendChild_def Let_def split: option.splits sum.splits bool.splits
      simp del: heap_set)

lemma removeChild_scalars:
  "removeChild parent coi s = (res, s') \<Longrightarrow> scalars (heap s' x) = scalars (heap s x)"
  by (auto simp add: removeChild_def Let_def split: option.splits sum.splits if_splits
      simp del: heap_set)

lemma remove_scalars:
  "remove node s = (res, s') \<Longrightarrow> scalars (heap s' x) = scalars (heap s x)"
  by (auto simp add: remove_def split: option.splits sum.splits prod.splits
      dest: removeChild_scalars)

subsection \<open>The loop that moves the children after a position\<close>

lemma move_child_frame:
  assumes k: "k < length (children s root)" and d: "distinct (children s root)"
    and par: "parent_invariant s root"
    and nt: "isTextNode (heap s clone) = Inr False" and ne: "clone \<noteq> root"
    and c1: "clone \<notin> set (children s root)" and c2: "clone \<notin> set (children s clone)"
    and r: "remove (Some (children s root ! k)) s = (Inr (), s1)"
    and a: "appendChild (Some clone) (Some (children s root ! k)) s1 = (Inr (), s2)"
  shows "parentNode (heap s2 clone) = parentNode (heap s clone)"
    and "nextSibling (heap s2 clone) = nextSibling (heap s clone)"
    and "scalars (heap s2 x) = scalars (heap s x)"
proof -
  let ?cs = "children s root"
  let ?c = "?cs ! k"
  from remove_nth_child[OF k d parent_invariant_nth[OF par k]] r have
    n1: "\<And>x. nextSibling (heap s1 x) =
              (if x = ?c then None
               else if 0 < k \<and> x = ?cs ! (k - 1) then nextSibling (heap s ?c)
               else nextSibling (heap s x))"
    and p1: "\<And>x. parentNode (heap s1 x) = (if x = ?c then None else parentNode (heap s x))"
    and ch1: "\<And>x. x \<noteq> root \<Longrightarrow> childNodes (heap s1 x) = childNodes (heap s x)"
    and t1: "\<And>x. isTextNode (heap s1 x) = isTextNode (heap s x)"
    by auto
  have cc: "?c \<noteq> clone" using c1 k by (metis nth_mem)
  have "k - 1 < length ?cs" using k by simp
  then have "?cs ! (k - 1) \<in> set ?cs" by (rule nth_mem)
  with c1 have cp: "?cs ! (k - 1) \<noteq> clone" by auto
  have l1: "parentNode (heap s1 clone) = parentNode (heap s clone)"
    "nextSibling (heap s1 clone) = nextSibling (heap s clone)"
    using cc cp by (simp_all add: n1 p1)
  have chc: "children s1 clone = children s clone"
    using ch1[OF ne] by (simp add: children_def)
  have nt1: "isTextNode (heap s1 clone) = Inr False" using t1 nt by simp
  from appendChild_effect[OF nt1, of ?c] a have
    n2: "\<And>x. nextSibling (heap s2 x) =
              (if x = ?c then None
               else if children s1 clone \<noteq> [] \<and> x = last (children s1 clone) then Some ?c
               else nextSibling (heap s1 x))"
    and p2: "\<And>x. parentNode (heap s2 x) = (if x = ?c then Some clone else parentNode (heap s1 x))"
    by auto
  have lastne: "children s1 clone \<noteq> [] \<Longrightarrow> clone \<noteq> last (children s1 clone)"
    using c2 chc by (metis last_in_set)
  show "parentNode (heap s2 clone) = parentNode (heap s clone)"
    using cc l1(1) by (simp add: p2)
  show "nextSibling (heap s2 clone) = nextSibling (heap s clone)"
    using cc l1(2) lastne by (auto simp add: n2)
  show "scalars (heap s2 x) = scalars (heap s x)"
    using remove_scalars[OF r, of x] appendChild_scalars[OF a, of x] by simp
qed

lemma split_after_loop_all:
  assumes "k \<le> length (children s root)" "distinct (children s root)" "parent_invariant s root"
    "isTextNode (heap s clone) = Inr False" "clone \<noteq> root"
    "childNodes (heap s root) \<noteq> None" "length (children s root) - k \<le> n"
    "clone \<notin> set (children s root)" "clone \<notin> set (children s clone)"
  shows "\<exists>s'. split_after_loop n (Some (int k)) root clone s = Some (Inr (), s')
     \<and> children s' root = take k (children s root)
     \<and> children s' clone = children s clone @ drop k (children s root)
     \<and> parent_invariant s' root
     \<and> (parent_invariant s clone \<longrightarrow> parent_invariant s' clone)
     \<and> childNodes (heap s' root) \<noteq> None
     \<and> fresh s' = fresh s
     \<and> parentNode (heap s' clone) = parentNode (heap s clone)
     \<and> nextSibling (heap s' clone) = nextSibling (heap s clone)
     \<and> (\<forall>x. scalars (heap s' x) = scalars (heap s x))"
  using assms
proof (induction n arbitrary: s)
  case 0
  let ?cs = "children s root"
  from 0(6) have cn: "childNodes (heap s root) = Some ?cs"
    by (auto simp add: children_def)
  from 0(1,7) have "k = length ?cs" by simp
  then show ?case
    using cn 0(3,6) by simp
next
  case (Suc m)
  let ?cs = "children s root"
  from Suc.prems(6) have cn: "childNodes (heap s root) = Some ?cs"
    by (auto simp add: children_def)
  show ?case
  proof (cases "k = length ?cs")
    case True
    then show ?thesis
      using cn Suc.prems(3,6) by simp
  next
    case False
    with Suc.prems(1) have k: "k < length ?cs" by simp
    from move_child[OF k Suc.prems(2,3,4,5)] obtain s1 s2 where
      mv: "remove (Some (?cs ! k)) s = (Inr (), s1)"
        "appendChild (Some clone) (Some (?cs ! k)) s1 = (Inr (), s2)"
        "children s2 root = take k ?cs @ drop (Suc k) ?cs"
        "children s2 clone = children s clone @ [?cs ! k]"
        "parent_invariant s2 root"
        "parent_invariant s clone \<longrightarrow> parent_invariant s2 clone"
        "isTextNode (heap s2 clone) = Inr False"
        "childNodes (heap s2 root) \<noteq> None"
        "fresh s2 = fresh s"
      by blast
    note fr = move_child_frame[OF k Suc.prems(2,3,4,5,8,9) mv(1,2)]
    have d2: "distinct (children s2 root)"
    proof -
      have "distinct (take k ?cs @ ?cs ! k # drop (Suc k) ?cs)"
        using Suc.prems(2) id_take_nth_drop[OF k] by simp
      then show ?thesis unfolding mv(3) by auto
    qed
    have k2: "k \<le> length (children s2 root)"
      using k mv(3) by simp
    have l2: "length (children s2 root) - k \<le> m"
      using Suc.prems(7) k mv(3) by simp
    have n1: "clone \<notin> set (children s2 root)"
      using Suc.prems(8) unfolding mv(3) by (auto dest: in_set_takeD in_set_dropD)
    have "?cs ! k \<noteq> clone" using Suc.prems(8) k by (metis nth_mem)
    then have n2: "clone \<notin> set (children s2 clone)"
      using Suc.prems(9) unfolding mv(4) by auto
    from Suc.IH[OF k2 d2 mv(5) mv(7) Suc.prems(5) mv(8) l2 n1 n2] obtain s' where
      s': "split_after_loop m (Some (int k)) root clone s2 = Some (Inr (), s')"
        "children s' root = take k (children s2 root)"
        "children s' clone = children s2 clone @ drop k (children s2 root)"
        "parent_invariant s' root"
        "parent_invariant s2 clone \<longrightarrow> parent_invariant s' clone"
        "childNodes (heap s' root) \<noteq> None"
        "fresh s' = fresh s2"
        "parentNode (heap s' clone) = parentNode (heap s2 clone)"
        "nextSibling (heap s' clone) = nextSibling (heap s2 clone)"
        "\<And>x. scalars (heap s' x) = scalars (heap s2 x)"
      by blast
    have step: "split_after_loop (Suc m) (Some (int k)) root clone s
                  = split_after_loop m (Some (int k)) root clone s2"
      using cn k mv(1,2) by simp
    have a: "children s' root = take k ?cs"
      using s'(2) mv(3) k by simp
    have b: "children s' clone = children s clone @ drop k ?cs"
      using s'(3) mv(3,4) k by (simp add: Cons_nth_drop_Suc)
    show ?thesis
      using step s'(1,4,5,6,7,8,9,10) a b mv(6,9) fr by simp
  qed
qed

subsection \<open>Splitting before a marker under the first child\<close>

lemma cloneNode_shallow:
  "\<exists>s1. cloneNode d (Some n) False s = Some (Inr (fresh s), s1)
     \<and> heap s1 (fresh s) = (heap s n)\<lparr>parentNode := None, childNodes := None, nextSibling := None\<rparr>
     \<and> (\<forall>x. x \<noteq> fresh s \<longrightarrow> heap s1 x = heap s x)
     \<and> fresh s1 = Suc (fresh s)"
  by (simp add: cloneNode_def alloc_def)

text \<open>The store in which the loops of \<open>splitByChild\<close> start.\<close>

lemma after_clone:
  assumes heap1: "heap s1 (fresh s)
                    = (heap s root)\<lparr>parentNode := None, childNodes := None, nextSibling := None\<rparr>"
    and frame: "\<forall>x. x \<noteq> fresh s \<longrightarrow> heap s1 x = heap s x"
    and nt: "isTextNode (heap s root) = Inr False"
    and par: "parent_invariant s root"
    and root: "root < fresh s" and cs: "list_all (\<lambda>c. c < fresh s) (children s root)"
  shows "children s1 root = children s root"
    and "childNodes (heap s1 root) = childNodes (heap s root)"
    and "parent_invariant s1 root"
    and "isTextNode (heap s1 (fresh s)) = Inr False"
    and "fresh s \<noteq> root"
    and "children s1 (fresh s) = []"
    and "parent_invariant s1 (fresh s)"
proof -
  show ne: "fresh s \<noteq> root" using root by simp
  then show c1: "children s1 root = children s root"
    and "childNodes (heap s1 root) = childNodes (heap s root)"
    using frame by (simp_all add: children_def)
  show "isTextNode (heap s1 (fresh s)) = Inr False"
    using heap1 nt by simp
  show c2: "children s1 (fresh s) = []"
    using heap1 by (simp add: children_def)
  then show "parent_invariant s1 (fresh s)"
    by (simp add: parent_invariant_def)
  show "parent_invariant s1 root"
    unfolding parent_invariant_def c1 list_all_iff
  proof
    fix x assume x: "x \<in> set (children s root)"
    with cs have "x \<noteq> fresh s" by (auto simp add: list_all_iff)
    with frame have "heap s1 x = heap s x" by simp
    with par x show "parentNode (heap s1 x) = Some root"
      by (simp add: parent_invariant_def list_all_iff)
  qed
qed

text \<open>
  Claim C10. Let \<open>root\<close> be a node that is not a text node, with at least one child, whose
  children are distinct and name it as their parent, and let the path from \<open>root\<close> to
  \<open>markerNode\<close> start with index 0. Then \<open>splitByChild(root, markerNode, false, _)\<close>
  raises the missing-argument error of \<open>remove\<close>, for every bound that lets the loop run
  once more than there are children; in the store it leaves behind \<open>root\<close> has no
  children and the clone, the object allocated by the call, has all of them in their
  order, each naming the clone as its parent.
\<close>

theorem splitByChild_before_first:
  assumes path: "getDescendantPath n s root markerNode = Some (Inr (0 # rest))"
    and ne: "children s root \<noteq> []"
    and nt: "isTextNode (heap s root) = Inr False"
    and d: "distinct (children s root)" and par: "parent_invariant s root"
    and root: "root < fresh s" and cs: "list_all (\<lambda>c. c < fresh s) (children s root)"
    and n: "length (children s root) < n"
  shows "\<exists>s'. splitByChild n root markerNode False removeMarkerNode s
                 = Some (Inl (MissingArgumentError ''node''), s')
     \<and> children s' root = []
     \<and> children s' (fresh s) = children s root
     \<and> parent_invariant s' (fresh s)"
proof -
  from cloneNode_shallow[of 0 root s] obtain s1 where
    s1: "cloneNode 0 (Some root) False s = Some (Inr (fresh s), s1)"
      "heap s1 (fresh s)
         = (heap s root)\<lparr>parentNode := None, childNodes := None, nextSibling := None\<rparr>"
      "\<forall>x. x \<noteq> fresh s \<longrightarrow> heap s1 x = heap s x"
    by blast
  note ac = after_clone[OF s1(2,3) nt par root cs]
  have cn: "childNodes (heap s1 root) = Some (children s root)"
    using ac(2) children_Some[OF ne] by simp
  have p1: "distinct (children s1 root)" using d ac(1) by simp
  have p5: "childNodes (heap s1 root) \<noteq> None" using cn by simp
  have p6: "length (children s1 root) < n" using n ac(1) by simp
  from split_before_loop_all[OF p1 ac(3) ac(4) ac(5) p5 p6] obtain s' where
    s': "split_before_loop n None root (fresh s) s1
           = Some (Inl (MissingArgumentError ''node''), s')"
      "children s' root = []"
      "children s' (fresh s) = children s root"
      "parent_invariant s' (fresh s)"
    using ac by auto
  have "splitByChild n root markerNode False removeMarkerNode s
          = Some (Inl (MissingArgumentError ''node''), s')"
    using path s1(1) cn s'(1) by (simp add: splitByChild_def js_index_def)
  with s'(2,3,4) show ?thesis
    by blast
qed


lemma scenario_facts:
  "distinct (children scenario_store 0)" "parent_invariant scenario_store 0"
  "0 < fresh scenario_store" "list_all (\<lambda>c. c < fresh scenario_store) (children scenario_store 0)"
  "fresh scenario_store = 5"
  by (simp_all add: scenario_children parent_invariant_def)
     (simp_all add: scenario_store_def createGeneralNode_def createTextNode_def)

lemma scenario_paths:
  "getDescendantPath 4 scenario_store 0 1 = Some (Inr [0])"
  "getDescendantPath 4 scenario_store 0 2 = Some (Inr [1])"
  "getDescendantPath 4 scenario_store 0 4 = Some (Inr [1, 0])"
  by (simp_all add: getDescendantPath_def eval_nat_numeral scenario_store_def
      createGeneralNode_def createTextNode_def)

theorem splitByChild_before_first_witness:
  "getDescendantPath 4 scenario_store 0 1 = Some (Inr [0])
   \<and> children scenario_store 0 = [1, 2, 3]
   \<and> (\<exists>s'. splitByChild 4 0 1 False True scenario_store
               = Some (Inl (MissingArgumentError ''node''), s')
          \<and> children s' 0 = []
          \<and> children s' 5 = [1, 2, 3])"
proof -
  have n: "length (children scenario_store 0) < 4" "children scenario_store 0 \<noteq> []"
    by (simp_all add: scenario_children)
  show ?thesis
    using splitByChild_before_first [OF scenario_paths(1) n(2) scenario_nontext
        scenario_facts(1,2,3,4) n(1), of True]
      scenario_paths(1) scenario_children(1) scenario_facts(5)
    by auto
qed

subsection \<open>Splitting after a marker\<close>

lemma scalars_idem [simp]: "scalars (scalars n) = scalars n"
  by (simp add: scalars_def)

lemma splitByChild_after_effect:
  assumes path: "getDescendantPath n s root markerNode = Some (Inr (int k # rest))"
    and k: "k < length (children s root)"
    and nt: "isTextNode (heap s root) = Inr False"
    and d: "distinct (children s root)" and par: "parent_invariant s root"
    and root: "root < fresh s" and cs: "list_all (\<lambda>c. c < fresh s) (children s root)"
    and n: "length (children s root) - Suc k \<le> n"
  shows "\<exists>s'. splitByChild n root markerNode True removeMarkerNode s = Some (Inr (fresh s), s')
     \<and> children s' (fresh s) = drop (Suc k) (children s root)
     \<and> children s' root
           = (if removeMarkerNode then take k (children s root) else take (Suc k) (children s root))
     \<and> parent_invariant s' (fresh s)
     \<and> parent_invariant s' root
     \<and> scalars (heap s' (fresh s)) = scalars (heap s root)
     \<and> parentNode (heap s' (fresh s)) = None
     \<and> nextSibling (heap s' (fresh s)) = None
     \<and> (\<forall>x<fresh s. scalars (heap s' x) = scalars (heap s x))"
proof -
  let ?cs = "children s root"
  let ?clone = "fresh s"
  from k have ne: "?cs \<noteq> []" by auto
  from cloneNode_shallow[of 0 root s] obtain s1 where
    s1: "cloneNode 0 (Some root) False s = Some (Inr ?clone, s1)"
      "heap s1 ?clone
         = (heap s root)\<lparr>parentNode := None, childNodes := None, nextSibling := None\<rparr>"
      "\<forall>x. x \<noteq> ?clone \<longrightarrow> heap s1 x = heap s x"
    by blast
  note ac = after_clone[OF s1(2,3) nt par root cs]
  have alloc: "x \<noteq> ?clone" if "x \<in> set ?cs" for x
    using cs that by (auto simp add: list_all_iff)
  have cn: "childNodes (heap s1 root) = Some ?cs"
    using ac(2) children_Some[OF ne] by simp
  have p1: "Suc k \<le> length (children s1 root)" using k ac(1) by simp
  have p2: "distinct (children s1 root)" using d ac(1) by simp
  have p6: "childNodes (heap s1 root) \<noteq> None" using cn by simp
  have p7: "length (children s1 root) - Suc k \<le> n" using n ac(1) by simp
  have p8: "?clone \<notin> set (children s1 root)" using alloc ac(1) by auto
  have p9: "?clone \<notin> set (children s1 ?clone)" using ac(6) by simp
  have l1: "parentNode (heap s1 ?clone) = None" "nextSibling (heap s1 ?clone) = None"
    "scalars (heap s1 ?clone) = scalars (heap s root)"
    using s1(2) by (simp_all add: scalars_def)
  have f1: "scalars (heap s1 x) = scalars (heap s x)" if "x < ?clone" for x
    using s1(3) that by simp
  from split_after_loop_all[OF p1 p2 ac(3) ac(4) ac(5) p6 p7 p8 p9] obtain s2 where
    s2: "split_after_loop n (Some (int (Suc k))) root ?clone s1 = Some (Inr (), s2)"
      "children s2 root = take (Suc k) ?cs"
      "children s2 ?clone = drop (Suc k) ?cs"
      "parent_invariant s2 root"
      "parent_invariant s2 ?clone"
      "childNodes (heap s2 root) \<noteq> None"
    and l2: "parentNode (heap s2 ?clone) = None" "nextSibling (heap s2 ?clone) = None"
    and sc2: "\<And>x. scalars (heap s2 x) = scalars (heap s1 x)"
    using ac l1 by auto
  have idx: "Some (int k + 1) = Some (int (Suc k))" by simp
  show ?thesis
  proof (cases removeMarkerNode)
    case False
    have "splitByChild n root markerNode True removeMarkerNode s = Some (Inr ?clone, s2)"
      using path s1(1) s2(1) False by (simp add: splitByChild_def js_index_def idx)
    with s2 l2 sc2 l1(3) f1 False show ?thesis by simp
  next
    case True
    have cn2: "childNodes (heap s2 root) = Some (take (Suc k) ?cs)"
      using s2(2,6) by (auto simp add: children_def)
    have k2: "k < length (children s2 root)" using s2(2) k by simp
    have c2: "children s2 root ! k = ?cs ! k" using s2(2) by simp
    have lst: "js_last (take (Suc k) ?cs) = Some (?cs ! k)"
      using k by (simp add: js_last_def take_Suc_conv_app_nth)
    have d2: "distinct (children s2 root)" using s2(2) d by simp
    from remove_nth_child[OF k2 d2 parent_invariant_nth[OF s2(4) k2]] c2 obtain s3 where
      s3: "remove (Some (?cs ! k)) s2 = (Inr (), s3)"
        "children s3 root = take k (children s2 root) @ drop (Suc k) (children s2 root)"
        "\<And>x. parentNode (heap s3 x) = (if x = ?cs ! k then None else parentNode (heap s2 x))"
        "\<And>x. x \<noteq> root \<Longrightarrow> childNodes (heap s3 x) = childNodes (heap s2 x)"
        "\<And>x. nextSibling (heap s3 x) =
              (if x = ?cs ! k then None
               else if 0 < k \<and> x = children s2 root ! (k - 1)
                    then nextSibling (heap s2 (?cs ! k))
               else nextSibling (heap s2 x))"
      by auto
    have r3: "children s3 root = take k ?cs"
      using s3(2) s2(2) k by (simp add: min_def)
    have c3: "children s3 ?clone = drop (Suc k) ?cs"
      using s3(4)[OF ac(5)] s2(3) by (simp add: children_def)
    have dd: "distinct (take k ?cs @ ?cs ! k # drop (Suc k) ?cs)"
      using d id_take_nth_drop[OF k] by simp
    have pc: "parent_invariant s3 ?clone"
      unfolding parent_invariant_def c3 list_all_iff
    proof
      fix x assume x: "x \<in> set (drop (Suc k) ?cs)"
      with dd have "x \<noteq> ?cs ! k" by auto
      moreover have "parentNode (heap s2 x) = Some ?clone"
        using s2(5) x by (simp add: parent_invariant_def s2(3) list_all_iff)
      ultimately show "parentNode (heap s3 x) = Some ?clone"
        by (simp add: s3(3))
    qed
    have pr: "parent_invariant s3 root"
      unfolding parent_invariant_def r3 list_all_iff
    proof
      fix x assume x: "x \<in> set (take k ?cs)"
      with dd have "x \<noteq> ?cs ! k" by auto
      moreover have "x \<in> set (take (Suc k) ?cs)"
        using x by (metis in_set_takeD take_take min.absorb1 le_SucI order_refl)
      then have "parentNode (heap s2 x) = Some root"
        using s2(4) by (simp add: parent_invariant_def s2(2) list_all_iff)
      ultimately show "parentNode (heap s3 x) = Some root"
        by (simp add: s3(3))
    qed
    have ck: "?cs ! k \<noteq> ?clone" using alloc[of "?cs ! k"] k by simp
    have "k - 1 < length ?cs" using k by simp
    then have "?cs ! (k - 1) \<in> set ?cs" by (rule nth_mem)
    then have "?cs ! (k - 1) \<noteq> ?clone" by (rule alloc)
    moreover have "children s2 root ! (k - 1) = ?cs ! (k - 1)" using s2(2) by simp
    ultimately have cp: "children s2 root ! (k - 1) \<noteq> ?clone" by simp
    have l3: "parentNode (heap s3 ?clone) = None" "nextSibling (heap s3 ?clone) = None"
      using ck cp l2 by (simp_all add: s3(3,5))
    have sc3: "scalars (heap s3 x) = scalars (heap s1 x)" for x
      using remove_scalars[OF s3(1), of x] sc2[of x] by simp
    have "splitByChild n root markerNode True removeMarkerNode s = Some (Inr ?clone, s3)"
      using path s1(1) s2(1) True cn2 lst s3(1)
      by (simp add: splitByChild_def js_index_def idx)
    with r3 c3 pc pr l3 sc3 l1(3) f1 True show ?thesis by simp
  qed
qed

text \<open>
  What holds of claim C1. Let \<open>root\<close> be a node that is not a text node, whose children
  are distinct and name it as their parent, and let \<open>markerNode\<close> be a proper descendant
  of \<open>root\<close>, given by the chain of its ancestors up to \<open>root\<close>, whose top-level ancestor
  is the child of \<open>root\<close> at position \<open>k\<close>. Then
  \<open>splitByChild(root, markerNode, true, removeMarkerNode)\<close> returns, for every bound that
  covers the chain and the children after position \<open>k\<close>. What it returns is the object
  allocated by the call, a shallow clone of \<open>root\<close>: it has the type, name, text and
  attributes of \<open>root\<close>, no parent and no sibling. Its children are the children of
  \<open>root\<close> strictly after position \<open>k\<close>, in their order, each naming the clone as its
  parent. \<open>root\<close> keeps the children before position \<open>k\<close> and, unless
  \<open>removeMarkerNode\<close> is set, the one at position \<open>k\<close>. No node that existed before the
  call has changed in anything but its links.
\<close>

theorem splitByChild_after_marker:
  assumes "parent_chain s root markerNode ancestors" and "ancestors \<noteq> []"
    and "k < length (children s root)"
    and "children s root ! k = top_ancestor markerNode ancestors"
    and "isTextNode (heap s root) = Inr False"
    and "distinct (children s root)" and "parent_invariant s root"
    and "root < fresh s" and "list_all (\<lambda>c. c < fresh s) (children s root)"
    and "length ancestors \<le> n" and "length (children s root) - Suc k \<le> n"
  shows "\<exists>s'. splitByChild n root markerNode True removeMarkerNode s = Some (Inr (fresh s), s')
     \<and> children s' (fresh s) = drop (Suc k) (children s root)
     \<and> children s' root
           = (if removeMarkerNode then take k (children s root) else take (Suc k) (children s root))
     \<and> children s' root @ (if removeMarkerNode then [children s root ! k] else [])
           @ children s' (fresh s) = children s root
     \<and> parent_invariant s' (fresh s)
     \<and> parent_invariant s' root
     \<and> scalars (heap s' (fresh s)) = scalars (heap s root)
     \<and> parentNode (heap s' (fresh s)) = None
     \<and> nextSibling (heap s' (fresh s)) = None
     \<and> (\<forall>x<fresh s. scalars (heap s' x) = scalars (heap s x))"
proof -
  from getDescendantPath_top[OF assms(1,2,10,6,3,4)] obtain rest where
    path: "getDescendantPath n s root markerNode = Some (Inr (int k # rest))"
    by blast
  from splitByChild_after_effect[OF path assms(3,5,6,7,8,9,11), of removeMarkerNode]
  obtain s' where
    s': "splitByChild n root markerNode True removeMarkerNode s = Some (Inr (fresh s), s')"
      "children s' (fresh s) = drop (Suc k) (children s root)"
      "children s' root
           = (if removeMarkerNode then take k (children s root) else take (Suc k) (children s root))"
      "parent_invariant s' (fresh s)" "parent_invariant s' root"
      "scalars (heap s' (fresh s)) = scalars (heap s root)"
      "parentNode (heap s' (fresh s)) = None"
      "nextSibling (heap s' (fresh s)) = None"
      "\<forall>x<fresh s. scalars (heap s' x) = scalars (heap s x)"
    by blast
  have "children s' root @ (if removeMarkerNode then [children s root ! k] else [])
           @ children s' (fresh s) = children s root"
    using s'(2,3) assms(3) by (simp add: id_take_nth_drop[symmetric])
  with s' show ?thesis
    by blast
qed

lemma scenario_chain:
  "parent_chain scenario_store 0 4 [2, 0]" "top_ancestor 4 [2, 0] = 2"
  "children scenario_store 0 ! 1 = 2"
  by (simp_all add: top_ancestor_def scenario_children)
     (simp_all add: scenario_store_def createGeneralNode_def createTextNode_def)

theorem splitByChild_after_marker_witness:
  "parent_chain scenario_store 0 4 [2, 0]
   \<and> children scenario_store 0 = [1, 2, 3]
   \<and> children scenario_store 0 ! 1 = top_ancestor 4 [2, 0]
   \<and> (\<exists>s'. splitByChild 4 0 4 True True scenario_store = Some (Inr 5, s')
          \<and> children s' 5 = [3]
          \<and> children s' 0 = [1]
          \<and> scalars (heap s' 5) = scalars (heap scenario_store 0)
          \<and> parentNode (heap s' 5) = None)"
proof -
  have t: "children scenario_store 0 ! 1 = top_ancestor 4 [2, 0]"
    using scenario_chain(2,3) by simp
  have n: "length (children scenario_store 0) - Suc 1 \<le> 4" "1 < length (children scenario_store 0)"
    "length [2, 0 :: nat] \<le> 4" "[2, 0 :: nat] \<noteq> []"
    by (simp_all add: scenario_children)
  show ?thesis
    using splitByChild_after_marker [OF scenario_chain(1) n(4) n(2) t scenario_nontext
        scenario_facts(1,2,3,4) n(3) n(1), of True]
      scenario_chain(1) t scenario_children(1) scenario_facts(5)
    by auto
qed

text \<open>
  Claim C1 as stated fails: the loop starts at the position after the marker's ancestor,
  so the child at position \<open>k\<close> is not moved. In the scenario tree, with the children
  1, 2, 3 of node 0 and node 2 as the marker (\<open>k = 1\<close>), the clone gets the child 3 only,
  not 2 and 3, and node 0 keeps the children 1 and 2.
\<close>

theorem splitByChild_after_marker_counterexample:
  "outcome (splitByChild 4 0 2 True False scenario_store) = Some (Inr 5)
   \<and> final_children (splitByChild 4 0 2 True False scenario_store) 5 = Some [3]
   \<and> final_children (splitByChild 4 0 2 True False scenario_store) 5 \<noteq> Some [2, 3]
   \<and> final_children (splitByChild 4 0 2 True False scenario_store) 0 = Some [1, 2]"
proof -
  have p: "getDescendantPath 4 scenario_store 0 2 = Some (Inr (int 1 # []))"
    using scenario_paths(2) by simp
  have n: "length (children scenario_store 0) - Suc 1 \<le> 4" "1 < length (children scenario_store 0)"
    by (simp_all add: scenario_children)
  from splitByChild_after_effect [OF p n(2) scenario_nontext scenario_facts(1,2,3,4) n(1),
        of False]
  obtain s' where "splitByChild 4 0 2 True False scenario_store = Some (Inr 5, s')"
    "children s' 5 = [3]" "children s' 0 = [1, 2]"
    using scenario_children(1) scenario_facts(5) by auto
  then show ?thesis
    by (simp add: outcome_def final_children_def)
qed

subsection \<open>Serialization reads the tree below a node only\<close>

lemma ser_eq_refl [simp]: "ser_eq n n"
  by (simp add: ser_eq_def)











subsection \<open>Links between the nodes of an address range\<close>






lemma copy_attribute_id [simp]: "map copy_attribute as = as"
  by (induction as) (simp_all add: copy_attribute_def)

subsection \<open>The deep clone\<close>








end
